theory Spec2Isabelle
  imports Complex_Main
begin

section \<open>Data model\<close>

text \<open>
  A JavaScript \<open>Date\<close> is its time value: an integral number of milliseconds since the
  epoch (an invalid date, whose time value is \<open>NaN\<close>, is not modelled). Prices, amounts and
  portfolio quantities are JavaScript numbers; they are modelled as real numbers (exact
  arithmetic, no rounding, no infinities). A price point is the object \<open>{t, p}\<close> of the
  source.
\<close>

record point =
  pt_t :: int
  pt_p :: real

text \<open>
  A timeline entry \<open>{t, p, cashIn, units, value, cashPile, ma}\<close>. The last two fields
  exist only for the strategies that hold idle cash or carry a moving average; \<open>ma\<close> is
  \<open>NaN\<close> (here \<open>None\<close>) while the averaging window is not filled.
\<close>

record entry =
  e_t :: int
  e_p :: real
  e_cashIn :: real
  e_units :: real
  e_value :: real
  e_cashPile :: "real option"
  e_ma :: "real option"

text \<open>The \<open>result\<close> object \<open>{cashIn, units, endValue}\<close> of a simulator.\<close>

record summary =
  r_cashIn :: real
  r_units :: real
  r_endValue :: real

record sim =
  timeline :: "entry list"
  result :: summary

definition msPerDay :: int where
  "msPerDay = 86400000"

section \<open>Schedule builder\<close>

text \<open>\<open>Array.prototype.findIndex\<close>: the first position satisfying the predicate, \<open>-1\<close> as \<open>None\<close>.\<close>

fun findIndex :: "('a \<Rightarrow> bool) \<Rightarrow> 'a list \<Rightarrow> nat option" where
  "findIndex P [] = None"
| "findIndex P (x # xs) = (if P x then Some 0 else map_option Suc (findIndex P xs))"

definition stepDays :: "string \<Rightarrow> int" where
  "stepDays frequency =
     (if frequency = ''daily'' then 1 else (if frequency = ''weekly'' then 7 else 30))"

text \<open>The inner scan \<open>while (j < data.length && data[j].t < cursor) j++\<close>.\<close>

function scan :: "point list \<Rightarrow> int \<Rightarrow> nat \<Rightarrow> nat" where
  "scan data cursor j =
     (if j < length data \<and> pt_t (data ! j) < cursor then scan data cursor (Suc j) else j)"
  by pat_completeness auto
termination
  by (relation "measure (\<lambda>(data, cursor, j). length data - j)") auto

declare scan.simps [simp del]

text \<open>
  The outer loop \<open>while (cursor <= endDate)\<close>, returning the positions it pushes. The
  constant \<open>stepDays\<close> is read from the frequency at every turn, so that the termination
  proof sees a positive step.
\<close>

function schedule_loop :: "point list \<Rightarrow> nat \<Rightarrow> int \<Rightarrow> string \<Rightarrow> int \<Rightarrow> nat list" where
  "schedule_loop data iStart endDate frequency cursor =
     (if cursor \<le> endDate then
        (let j = scan data cursor iStart;
             rest = schedule_loop data iStart endDate frequency
                      (cursor + stepDays frequency * msPerDay)
         in if j < length data \<and> pt_t (data ! j) \<le> endDate then j # rest else rest)
      else [])"
  by pat_completeness auto
termination
  by (relation "measure (\<lambda>(data, iStart, endDate, frequency, cursor). nat (endDate - cursor + 1))")
     (auto simp: stepDays_def msPerDay_def)

declare schedule_loop.simps [simp del]

definition buildScheduleIdx :: "point list \<Rightarrow> int \<Rightarrow> int \<Rightarrow> string \<Rightarrow> nat list" where
  "buildScheduleIdx data start end frequency =
     (case findIndex (\<lambda>d. start \<le> pt_t d) data of
        None \<Rightarrow> []
      | Some iStart \<Rightarrow>
          (let cursor = pt_t (data ! iStart);
               lastDate = pt_t (data ! (length data - 1));
               endDate = (if end \<le> lastDate then end else lastDate)
           in schedule_loop data iStart endDate frequency cursor))"

section \<open>Strategy simulators\<close>

text \<open>\<open>timeline.at(-1)?.value || 0\<close>.\<close>

definition lastValue :: "entry list \<Rightarrow> real" where
  "lastValue tline = (if tline = [] then 0 else e_value (last tline))"

text \<open>
  The loop of \<open>simulateDCA\<close> over \<open>data[i..]\<close>, with the variables \<open>cashIn\<close>, \<open>units\<close>
  and \<open>sPtr\<close> as arguments. It returns the entries pushed from position \<open>i\<close> on and the
  final \<open>cashIn\<close> and \<open>units\<close>.
\<close>

fun dca_loop :: "nat list \<Rightarrow> int \<Rightarrow> int \<Rightarrow> real \<Rightarrow> nat \<Rightarrow> point list \<Rightarrow> real \<Rightarrow> real \<Rightarrow> nat
    \<Rightarrow> entry list \<times> real \<times> real" where
  "dca_loop schedule start end amount i [] cashIn units sPtr = ([], cashIn, units)"
| "dca_loop schedule start end amount i (d # ds) cashIn units sPtr =
     (if pt_t d < start \<or> pt_t d > end
      then dca_loop schedule start end amount (Suc i) ds cashIn units sPtr
      else
        (let buy = (sPtr < length schedule \<and> i = schedule ! sPtr);
             cashIn' = (if buy then cashIn + amount else cashIn);
             units' = (if buy then units + amount / pt_p d else units);
             sPtr' = (if buy then Suc sPtr else sPtr);
             val = units' * pt_p d;
             rest = dca_loop schedule start end amount (Suc i) ds cashIn' units' sPtr'
         in (\<lparr>e_t = pt_t d, e_p = pt_p d, e_cashIn = cashIn', e_units = units',
               e_value = val, e_cashPile = None, e_ma = None\<rparr> # fst rest, snd rest)))"

definition simulateDCA :: "point list \<Rightarrow> int \<Rightarrow> int \<Rightarrow> real \<Rightarrow> string \<Rightarrow> sim" where
  "simulateDCA data start end amount frequency =
     (let schedule = buildScheduleIdx data start end frequency;
          run = dca_loop schedule start end amount 0 data 0 0 0
      in \<lparr>timeline = fst run,
          result = \<lparr>r_cashIn = fst (snd run), r_units = snd (snd run),
                     r_endValue = lastValue (fst run)\<rparr>\<rparr>)"

text \<open>The loop \<open>for (i = iStart; i < data.length && data[i].t <= end; i++)\<close> of \<open>simulateLumpSum\<close>.\<close>

fun ls_loop :: "int \<Rightarrow> real \<Rightarrow> real \<Rightarrow> point list \<Rightarrow> entry list" where
  "ls_loop end total' units [] = []"
| "ls_loop end total' units (d # ds) =
     (if pt_t d \<le> end
      then \<lparr>e_t = pt_t d, e_p = pt_p d, e_cashIn = total', e_units = units,
              e_value = units * pt_p d, e_cashPile = None, e_ma = None\<rparr> # ls_loop end total' units ds
      else [])"

definition simulateLumpSum :: "point list \<Rightarrow> int \<Rightarrow> int \<Rightarrow> real \<Rightarrow> string \<Rightarrow> sim" where
  "simulateLumpSum data start end amount frequency =
     (let periods = length (buildScheduleIdx data start end frequency);
          total' = real periods * amount
      in case findIndex (\<lambda>d. start \<le> pt_t d) data of
           None \<Rightarrow> \<lparr>timeline = [], result = \<lparr>r_cashIn = 0, r_units = 0, r_endValue = 0\<rparr>\<rparr>
         | Some iStart \<Rightarrow>
             (let startPrice = pt_p (data ! iStart);
                  units = total' / startPrice;
                  tline = ls_loop end total' units (drop iStart data)
              in \<lparr>timeline = tline,
                  result = \<lparr>r_cashIn = total', r_units = units, r_endValue = lastValue tline\<rparr>\<rparr>))"

text \<open>
  The loop of \<open>simulateDipBuy\<close>. \<open>peak\<close> starts at \<open>-Infinity\<close>, here \<open>None\<close>.
  \<open>scheduleSet.has(i)\<close> is membership in the set of scheduled positions. Over the reals
  the quotient \<open>(peak - p) / peak\<close> is finite exactly when \<open>peak\<close> is not zero, which is
  what \<open>isFinite(drawdown)\<close> becomes.
\<close>

definition max_peak :: "real option \<Rightarrow> real \<Rightarrow> real" where
  "max_peak peak p = (case peak of None \<Rightarrow> p | Some k \<Rightarrow> max k p)"

fun dip_loop :: "nat set \<Rightarrow> int \<Rightarrow> int \<Rightarrow> real \<Rightarrow> real \<Rightarrow> nat \<Rightarrow> point list
    \<Rightarrow> real \<Rightarrow> real \<Rightarrow> real \<Rightarrow> real option \<Rightarrow> entry list \<times> real \<times> real" where
  "dip_loop scheduleSet start end amount dipPct i [] cashIn units cashPile peak =
     ([], cashIn, units)"
| "dip_loop scheduleSet start end amount dipPct i (d # ds) cashIn units cashPile peak =
     (if pt_t d < start \<or> pt_t d > end
      then dip_loop scheduleSet start end amount dipPct (Suc i) ds cashIn units cashPile peak
      else
        (let cashIn' = (if i \<in> scheduleSet then cashIn + amount else cashIn);
             cashPile' = (if i \<in> scheduleSet then cashPile + amount else cashPile);
             peak' = max_peak peak (pt_p d);
             drawdown = (peak' - pt_p d) / peak';
             buy = (peak' \<noteq> 0 \<and> drawdown \<ge> dipPct \<and> cashPile' > 0);
             units' = (if buy then units + cashPile' / pt_p d else units);
             cashPile'' = (if buy then 0 else cashPile');
             val = units' * pt_p d + cashPile'';
             rest = dip_loop scheduleSet start end amount dipPct (Suc i) ds
                      cashIn' units' cashPile'' (Some peak')
         in (\<lparr>e_t = pt_t d, e_p = pt_p d, e_cashIn = cashIn', e_units = units',
               e_value = val, e_cashPile = Some cashPile'', e_ma = None\<rparr> # fst rest, snd rest)))"

definition simulateDipBuy :: "point list \<Rightarrow> int \<Rightarrow> int \<Rightarrow> real \<Rightarrow> string \<Rightarrow> real \<Rightarrow> sim" where
  "simulateDipBuy data start end amount frequency dipPct =
     (let schedule = buildScheduleIdx data start end frequency;
          scheduleSet = set schedule;
          run = dip_loop scheduleSet start end amount dipPct 0 data 0 0 0 None
      in \<lparr>timeline = fst run,
          result = \<lparr>r_cashIn = fst (snd run), r_units = snd (snd run),
                     r_endValue = lastValue (fst run)\<rparr>\<rparr>)"

text \<open>
  The simple moving average \<open>sma(arr, window)\<close>: a running sum over the last \<open>window\<close>
  values; \<open>NaN\<close> (here \<open>None\<close>) before the window is filled, and for a window of zero,
  where the source divides zero by zero.
\<close>

fun sma_loop :: "real list \<Rightarrow> nat \<Rightarrow> nat \<Rightarrow> real list \<Rightarrow> real \<Rightarrow> real option list" where
  "sma_loop arr window i [] runSum = []"
| "sma_loop arr window i (x # xs) runSum =
     (let runSum' = runSum + x;
          runSum'' = (if i \<ge> window then runSum' - arr ! (i - window) else runSum');
          out = (if int i \<ge> int window - 1 \<and> window \<noteq> 0
                 then Some (runSum'' / real window) else None)
      in out # sma_loop arr window (Suc i) xs runSum'')"

definition sma :: "real list \<Rightarrow> nat \<Rightarrow> real option list" where
  "sma arr window = sma_loop arr window 0 arr 0"

text \<open>The loop of \<open>simulateTrendDCA\<close>; a comparison with \<open>NaN\<close> is false.\<close>

fun trend_loop :: "nat set \<Rightarrow> real option list \<Rightarrow> int \<Rightarrow> int \<Rightarrow> real \<Rightarrow> nat \<Rightarrow> nat \<Rightarrow> point list
    \<Rightarrow> real \<Rightarrow> real \<Rightarrow> real \<Rightarrow> entry list \<times> real \<times> real" where
  "trend_loop scheduleSet ma start end amount maN i [] cashIn units cashPile =
     ([], cashIn, units)"
| "trend_loop scheduleSet ma start end amount maN i (d # ds) cashIn units cashPile =
     (if pt_t d < start \<or> pt_t d > end
      then trend_loop scheduleSet ma start end amount maN (Suc i) ds cashIn units cashPile
      else
        (let cashIn' = (if i \<in> scheduleSet then cashIn + amount else cashIn);
             cashPile' = (if i \<in> scheduleSet then cashPile + amount else cashPile);
             buy = (int i \<ge> int maN - 1
                    \<and> (case ma ! i of None \<Rightarrow> False | Some m \<Rightarrow> pt_p d > m)
                    \<and> cashPile' > 0);
             units' = (if buy then units + cashPile' / pt_p d else units);
             cashPile'' = (if buy then 0 else cashPile');
             val = units' * pt_p d + cashPile'';
             rest = trend_loop scheduleSet ma start end amount maN (Suc i) ds
                      cashIn' units' cashPile''
         in (\<lparr>e_t = pt_t d, e_p = pt_p d, e_cashIn = cashIn', e_units = units',
               e_value = val, e_cashPile = Some cashPile'', e_ma = ma ! i\<rparr> # fst rest,
             snd rest)))"

definition simulateTrendDCA :: "point list \<Rightarrow> int \<Rightarrow> int \<Rightarrow> real \<Rightarrow> string \<Rightarrow> nat \<Rightarrow> sim" where
  "simulateTrendDCA data start end amount frequency maN =
     (let prices = map pt_p data;
          ma = sma prices maN;
          schedule = buildScheduleIdx data start end frequency;
          scheduleSet = set schedule;
          run = trend_loop scheduleSet ma start end amount maN 0 data 0 0 0
      in \<lparr>timeline = fst run,
          result = \<lparr>r_cashIn = fst (snd run), r_units = snd (snd run),
                     r_endValue = lastValue (fst run)\<rparr>\<rparr>)"

section \<open>Metrics\<close>

text \<open>The record \<open>{cashIn, endValue, pnl, rtn, cagr, volAnn, sharpe, mdd}\<close>.\<close>

record metrics =
  m_cashIn :: real
  m_endValue :: real
  m_pnl :: real
  m_rtn :: real
  m_cagr :: real
  m_volAnn :: real
  m_sharpe :: real
  m_mdd :: real

definition daysBetween :: "int \<Rightarrow> int \<Rightarrow> real" where
  "daysBetween a b = real_of_int (b - a) / 86400000"

text \<open>
  The loop collecting \<open>rets\<close>: \<open>r = prev > 0 ? (cur / prev - 1) : 0\<close> for each adjacent
  pair of entries. Over the reals every \<open>r\<close> is finite, so \<open>isFinite(r)\<close> holds and each
  \<open>r\<close> is pushed.
\<close>

fun rets_loop :: "entry list \<Rightarrow> real list" where
  "rets_loop (a # b # es) =
     (let prev = e_value a;
          cur = e_value b;
          r = (if prev > 0 then cur / prev - 1 else 0)
      in r # rets_loop (b # es))"
| "rets_loop es = []"

text \<open>The loop of the maximum drawdown; \<open>peak\<close> starts at \<open>-Infinity\<close>, here \<open>None\<close>.\<close>

fun mdd_loop :: "real option \<Rightarrow> real \<Rightarrow> real list \<Rightarrow> real" where
  "mdd_loop peak mdd [] = mdd"
| "mdd_loop peak mdd (p # ps) =
     (let peak' = max_peak peak p;
          mdd' = (if peak' > 0 then min mdd (p / peak' - 1) else mdd)
      in mdd_loop (Some peak') mdd' ps)"

text \<open>
  \<open>metricsFromTimeline\<close>; the empty object \<open>{}\<close> returned for an empty timeline is \<open>None\<close>.
  \<open>Math.pow\<close> is \<open>powr\<close>, which agrees with it for a base that is not negative.
\<close>

definition metricsFromTimeline :: "entry list \<Rightarrow> metrics option" where
  "metricsFromTimeline tline =
     (if tline = [] then None
      else
        (let cashIn = e_cashIn (last tline);
             endValue = e_value (last tline);
             startDate = e_t (hd tline);
             endDate = e_t (last tline);
             years = daysBetween startDate endDate / 365.25;
             pnl = endValue - cashIn;
             rtn = (if cashIn > 0 then endValue / cashIn - 1 else 0);
             cagr = (if cashIn > 0 \<and> years > 0 then (endValue / cashIn) powr (1 / years) - 1 else 0);
             rets = rets_loop tline;
             mean = foldl (\<lambda>a b. a + b) 0 rets
                      / real (if length rets = 0 then 1 else length rets);
             variance = foldl (\<lambda>s x. s + (x - mean)\<^sup>2) 0 rets
                          / real_of_int (max 1 (int (length rets) - 1));
             volDaily = sqrt (max 0 variance);
             volAnn = volDaily * sqrt 365;
             sharpe = (if volAnn > 0 then cagr / volAnn else 0);
             mdd = mdd_loop None 0 (map e_value tline)
         in Some \<lparr>m_cashIn = cashIn, m_endValue = endValue, m_pnl = pnl, m_rtn = rtn,
                   m_cagr = cagr, m_volAnn = volAnn, m_sharpe = sharpe, m_mdd = mdd\<rparr>))"

section \<open>Calendar of the host\<close>

text \<open>
  \<open>buildStages\<close> reads years and months with \<open>getFullYear\<close> and \<open>getMonth\<close> and builds
  dates with \<open>new Date(year, month, 1)\<close>. These follow the day arithmetic of the language
  standard: day numbers count from 1 January 1970, \<open>DayFromYear\<close> is the day number of the
  first day of a year, the year of a day is the largest year whose first day is not after
  it, and the month is read off the day within the year. Time values are unbounded
  integers; the range limit of \<open>Date\<close> is not modelled.
\<close>

definition DaysInYear :: "int \<Rightarrow> int" where
  "DaysInYear y =
     (if y mod 4 \<noteq> 0 then 365
      else if y mod 100 \<noteq> 0 then 366
      else if y mod 400 \<noteq> 0 then 365
      else 366)"

definition DayFromYear :: "int \<Rightarrow> int" where
  "DayFromYear y = 365 * (y - 1970) + (y - 1969) div 4 - (y - 1901) div 100 + (y - 1601) div 400"

text \<open>Consecutive years are 365 or 366 days apart, so \<open>DayFromYear\<close> is strictly increasing.\<close>

lemma div_succ:
  fixes a n :: int
  assumes "0 < n"
  shows "(a + 1) div n = a div n + (if (a + 1) mod n = 0 then 1 else 0)"
proof -
  define q where "q = a div n"
  define r where "r = a mod n"
  have a: "a = q * n + r" by (simp add: q_def r_def)
  have r: "0 \<le> r" "r < n" using assms by (simp_all add: r_def)
  show ?thesis
  proof (cases "r + 1 = n")
    case True
    then have "a + 1 = (q + 1) * n" using a by (simp add: algebra_simps)
    then have "(a + 1) div n = q + 1" "(a + 1) mod n = 0"
      using assms by simp_all
    then show ?thesis by (simp add: q_def)
  next
    case False
    with r have lt: "r + 1 < n" by simp
    have eq: "a + 1 = (r + 1) + q * n" using a by simp
    have "(a + 1) div n = (r + 1) div n + q"
      unfolding eq using assms by (simp only: div_mult_self1 [of n "r + 1" q])
    also have "(r + 1) div n = 0"
      using r lt by (simp add: div_pos_pos_trivial)
    finally have d: "(a + 1) div n = q" by simp
    have "(a + 1) mod n = (r + 1) mod n"
      unfolding eq by simp
    also have "\<dots> = r + 1" using r lt by (simp add: mod_pos_pos_trivial)
    finally have "(a + 1) mod n \<noteq> 0" using r by simp
    with d show ?thesis by (simp add: q_def)
  qed
qed

lemma DayFromYear_step: "DayFromYear (y + 1) = DayFromYear y + DaysInYear y"
proof -
  define l4 :: int where "l4 = (if y mod 4 = 0 then 1 else 0)"
  define l100 :: int where "l100 = (if y mod 100 = 0 then 1 else 0)"
  define l400 :: int where "l400 = (if y mod 400 = 0 then 1 else 0)"
  have m4: "(y - 1969 + 1) mod 4 = y mod 4"
    using mod_diff_eq [of y 4 1968] by simp
  have m100: "(y - 1901 + 1) mod 100 = y mod 100"
    using mod_diff_eq [of y 100 1900] by simp
  have m400: "(y - 1601 + 1) mod 400 = y mod 400"
    using mod_diff_eq [of y 400 1600] by simp
  have d4: "(y - 1969 + 1) div 4 = (y - 1969) div 4 + l4"
    unfolding l4_def m4 [symmetric] by (rule div_succ) simp
  have d100: "(y - 1901 + 1) div 100 = (y - 1901) div 100 + l100"
    unfolding l100_def m100 [symmetric] by (rule div_succ) simp
  have d400: "(y - 1601 + 1) div 400 = (y - 1601) div 400 + l400"
    unfolding l400_def m400 [symmetric] by (rule div_succ) simp
  have c1: "y mod 4 = 0" if "y mod 100 = 0"
    using that mod_mod_cancel [of 4 100 y] by simp
  have c2: "y mod 100 = 0" if "y mod 400 = 0"
    using that mod_mod_cancel [of 100 400 y] by simp
  have sh: "y + 1 - 1969 = y - 1969 + 1" "y + 1 - 1901 = y - 1901 + 1" "y + 1 - 1601 = y - 1601 + 1"
    by simp_all
  have "DayFromYear (y + 1) = DayFromYear y + (365 + l4 - l100 + l400)"
    unfolding DayFromYear_def sh d4 d100 d400 by simp
  moreover have "DaysInYear y = 365 + l4 - l100 + l400"
    using c1 c2 by (auto simp: DaysInYear_def l4_def l100_def l400_def)
  ultimately show ?thesis by simp
qed

lemma DaysInYear_bounds: "365 \<le> DaysInYear y \<and> DaysInYear y \<le> 366"
  by (simp add: DaysInYear_def)

lemma DayFromYear_add_lower: "DayFromYear y + 365 * int n \<le> DayFromYear (y + int n)"
proof (induction n)
  case 0
  then show ?case by simp
next
  case (Suc n)
  have "DayFromYear (y + int (Suc n)) = DayFromYear (y + int n) + DaysInYear (y + int n)"
    using DayFromYear_step [of "y + int n"] by (simp add: algebra_simps)
  with Suc DaysInYear_bounds [of "y + int n"] show ?case by simp
qed

lemma DayFromYear_add_upper: "DayFromYear (y + int n) \<le> DayFromYear y + 366 * int n"
proof (induction n)
  case 0
  then show ?case by simp
next
  case (Suc n)
  have "DayFromYear (y + int (Suc n)) = DayFromYear (y + int n) + DaysInYear (y + int n)"
    using DayFromYear_step [of "y + int n"] by (simp add: algebra_simps)
  with Suc DaysInYear_bounds [of "y + int n"] show ?case by simp
qed

lemma DayFromYear_strict_mono: "y < y' \<Longrightarrow> DayFromYear y < DayFromYear y'"
proof -
  assume "y < y'"
  define n where "n = nat (y' - y)"
  with \<open>y < y'\<close> have n: "y' = y + int n" "0 < n" by simp_all
  with DayFromYear_add_lower [of y n] show ?thesis by simp
qed

lemma DayFromYear_mono: "y \<le> y' \<Longrightarrow> DayFromYear y \<le> DayFromYear y'"
  using DayFromYear_strict_mono [of y y'] by (cases "y = y'") auto

text \<open>
  The year of a day number: the search starts at a year whose first day is not after the
  day and moves on while the next year's first day is not after it either.
\<close>

function year_search :: "int \<Rightarrow> int \<Rightarrow> int" where
  "year_search d y = (if DayFromYear (y + 1) \<le> d then year_search d (y + 1) else y)"
  by pat_completeness auto
termination
proof (relation "measure (\<lambda>(d, y). nat (d - DayFromYear y))")
  show "wf (measure (\<lambda>(d, y). nat (d - DayFromYear y)))" by simp
next
  fix d y :: int
  assume "DayFromYear (y + 1) \<le> d"
  moreover have "DayFromYear y < DayFromYear (y + 1)"
    by (rule DayFromYear_strict_mono) simp
  ultimately show "((d, y + 1), (d, y)) \<in> measure (\<lambda>(d, y). nat (d - DayFromYear y))"
    by simp
qed

declare year_search.simps [simp del]

definition YearFromDay :: "int \<Rightarrow> int" where
  "YearFromDay d = year_search d (1970 + (if 0 \<le> d then d div 366 else d div 365))"

definition InLeapYear :: "int \<Rightarrow> int" where
  "InLeapYear y = (if DaysInYear y = 366 then 1 else 0)"

definition monthStart :: "int \<Rightarrow> int \<Rightarrow> int" where
  "monthStart m leap =
     (if m = 0 then 0 else if m = 1 then 31 else if m = 2 then 59 + leap
      else if m = 3 then 90 + leap else if m = 4 then 120 + leap
      else if m = 5 then 151 + leap else if m = 6 then 181 + leap
      else if m = 7 then 212 + leap else if m = 8 then 243 + leap
      else if m = 9 then 273 + leap else if m = 10 then 304 + leap
      else 334 + leap)"

definition MonthFromDay :: "int \<Rightarrow> int" where
  "MonthFromDay d =
     (let y = YearFromDay d;
          dayWithinYear = d - DayFromYear y;
          leap = InLeapYear y
      in if dayWithinYear < 31 then 0
         else if dayWithinYear < 59 + leap then 1
         else if dayWithinYear < 90 + leap then 2
         else if dayWithinYear < 120 + leap then 3
         else if dayWithinYear < 151 + leap then 4
         else if dayWithinYear < 181 + leap then 5
         else if dayWithinYear < 212 + leap then 6
         else if dayWithinYear < 243 + leap then 7
         else if dayWithinYear < 273 + leap then 8
         else if dayWithinYear < 304 + leap then 9
         else if dayWithinYear < 334 + leap then 10
         else 11)"

definition MakeDay :: "int \<Rightarrow> int \<Rightarrow> int" where
  "MakeDay year month =
     (let ym = year + month div 12;
          mn = month mod 12
      in DayFromYear ym + monthStart mn (InLeapYear ym))"

text \<open>
  Local time on a host with a fixed offset \<open>tz\<close> (in milliseconds) from UTC: the local
  day number of a time value, and the \<open>Date\<close> methods the source calls.
\<close>

definition localDay :: "int \<Rightarrow> int \<Rightarrow> int" where
  "localDay tz t = (t + tz) div msPerDay"

definition getFullYear :: "int \<Rightarrow> int \<Rightarrow> int" where
  "getFullYear tz t = YearFromDay (localDay tz t)"

definition getMonth :: "int \<Rightarrow> int \<Rightarrow> int" where
  "getMonth tz t = MonthFromDay (localDay tz t)"

text \<open>
  \<open>new Date(year, month, 1)\<close>: local midnight of the first day of the month. A year from 0
  to 99 is read as 1900 plus that year.
\<close>

definition newDate :: "int \<Rightarrow> int \<Rightarrow> int \<Rightarrow> int" where
  "newDate tz year month =
     (let yr = (if 0 \<le> year \<and> year \<le> 99 then 1900 + year else year)
      in MakeDay yr month * msPerDay - tz)"

definition quarterOf :: "int \<Rightarrow> int \<Rightarrow> int" where
  "quarterOf tz date = getMonth tz date div 3 + 1"

definition startOfQuarter :: "int \<Rightarrow> int \<Rightarrow> int" where
  "startOfQuarter tz date =
     (let q = getMonth tz date div 3 in newDate tz (getFullYear tz date) (q * 3))"

text \<open>The value of \<open>next\<close> in the loop of \<open>buildStages\<close>.\<close>

definition nextStart :: "int \<Rightarrow> string \<Rightarrow> int \<Rightarrow> int" where
  "nextStart tz granularity cur =
     (if granularity = ''year'' then newDate tz (getFullYear tz cur + 1) 0
      else if granularity = ''quarter'' then
        (let qStart = startOfQuarter tz cur
         in newDate tz (getFullYear tz qStart) (getMonth tz qStart + 3))
      else newDate tz (getFullYear tz cur) (getMonth tz cur + 1))"

text \<open>A stage \<open>{start, end, label}\<close>.\<close>

record stage =
  st_start :: int
  st_end :: int
  st_label :: string

text \<open>A number in a template literal: its decimal digits, with a minus sign when negative.\<close>

function showNat :: "nat \<Rightarrow> string" where
  "showNat n = (if n < 10 then [''0123456789'' ! n] else showNat (n div 10) @ [''0123456789'' ! (n mod 10)])"
  by pat_completeness auto
termination
  by (relation "measure id") auto

declare showNat.simps [simp del]

definition showInt :: "int \<Rightarrow> string" where
  "showInt i = (if i < 0 then CHR ''-'' # showNat (nat (- i)) else showNat (nat i))"

text \<open>\<open>padStart(2, '0')\<close>.\<close>

definition padStart2 :: "string \<Rightarrow> string" where
  "padStart2 s = replicate (2 - length s) CHR ''0'' @ s"

definition stageLabel :: "int \<Rightarrow> string \<Rightarrow> int \<Rightarrow> string" where
  "stageLabel tz granularity stageStart =
     (if granularity = ''year'' then showInt (getFullYear tz stageStart)
      else if granularity = ''quarter'' then
        showInt (getFullYear tz stageStart) @ ''-Q'' @ showInt (quarterOf tz stageStart)
      else showInt (getFullYear tz stageStart) @ ''-''
             @ padStart2 (showInt (getMonth tz stageStart + 1)))"

lemma year_search_bracket:
  "DayFromYear y \<le> d \<Longrightarrow>
   DayFromYear (year_search d y) \<le> d \<and> d < DayFromYear (year_search d y + 1)"
proof (induction d y rule: year_search.induct)
  case (1 d y)
  show ?case
  proof (cases "DayFromYear (y + 1) \<le> d")
    case True
    then have "year_search d y = year_search d (y + 1)"
      by (subst year_search.simps) simp
    with 1 True show ?thesis by simp
  next
    case False
    then have "year_search d y = y"
      by (subst year_search.simps) simp
    with 1 False show ?thesis by simp
  qed
qed

lemma DayFromYear_1970: "DayFromYear 1970 = 0"
  by (simp add: DayFromYear_def)

lemma year_estimate:
  "DayFromYear (1970 + (if 0 \<le> d then d div 366 else d div 365)) \<le> d"
proof (cases "0 \<le> d")
  case True
  define n where "n = nat (d div 366)"
  with True have n: "d div 366 = int n"
    by (simp add: pos_imp_zdiv_nonneg_iff)
  have "DayFromYear (1970 + int n) \<le> 366 * int n"
    using DayFromYear_add_upper [of 1970 n] by (simp add: DayFromYear_1970)
  moreover have "366 * (d div 366) \<le> d"
    using mult_div_mod_eq [of 366 d] pos_mod_sign [of 366 d] by linarith
  ultimately show ?thesis using True n by simp
next
  case False
  then have "d div 365 < 0" by (simp add: pos_imp_zdiv_neg_iff)
  define n where "n = nat (- (d div 365))"
  with \<open>d div 365 < 0\<close> have n: "d div 365 = - int n"
    by simp
  have "DayFromYear (1970 - int n) + 365 * int n \<le> DayFromYear (1970 - int n + int n)"
    by (rule DayFromYear_add_lower)
  then have "DayFromYear (1970 - int n) \<le> - (365 * int n)"
    by (simp add: DayFromYear_1970)
  moreover have "365 * (d div 365) \<le> d"
    using mult_div_mod_eq [of 365 d] pos_mod_sign [of 365 d] by linarith
  ultimately show ?thesis using False n by simp
qed

lemma YearFromDay_bracket:
  "DayFromYear (YearFromDay d) \<le> d \<and> d < DayFromYear (YearFromDay d + 1)"
  unfolding YearFromDay_def by (rule year_search_bracket) (rule year_estimate)

lemma YearFromDay_unique:
  assumes "DayFromYear y \<le> d" "d < DayFromYear (y + 1)"
  shows "YearFromDay d = y"
proof (rule ccontr)
  assume ne: "YearFromDay d \<noteq> y"
  from YearFromDay_bracket [of d] have b: "DayFromYear (YearFromDay d) \<le> d" "d < DayFromYear (YearFromDay d + 1)"
    by simp_all
  show False
  proof (cases "YearFromDay d < y")
    case True
    then have "DayFromYear (YearFromDay d + 1) \<le> DayFromYear y"
      by (intro DayFromYear_mono) simp
    with b assms show False by simp
  next
    case False
    with ne have "y + 1 \<le> YearFromDay d" by simp
    then have "DayFromYear (y + 1) \<le> DayFromYear (YearFromDay d)"
      by (rule DayFromYear_mono)
    with b assms show False by simp
  qed
qed


lemma InLeapYear_cases: "InLeapYear y = 0 \<or> InLeapYear y = 1"
  by (simp add: InLeapYear_def)

lemma DaysInYear_leap: "DaysInYear y = 365 + InLeapYear y"
  by (simp add: InLeapYear_def DaysInYear_def)

lemma MonthFromDay_range: "0 \<le> MonthFromDay d \<and> MonthFromDay d \<le> 11"
  by (simp add: MonthFromDay_def Let_def)

lemma month_cases:
  fixes m :: int
  assumes "0 \<le> m" "m \<le> 11"
  shows "m = 0 \<or> m = 1 \<or> m = 2 \<or> m = 3 \<or> m = 4 \<or> m = 5 \<or> m = 6 \<or> m = 7 \<or> m = 8
         \<or> m = 9 \<or> m = 10 \<or> m = 11"
proof -
  have "m \<in> set [0..11]" using assms by simp
  also have "set [0..11] = {0, 1, 2, 3, 4, 5, 6, 7, 8, 9, 10, 11 :: int}"
    by code_simp
  finally show ?thesis by simp
qed

lemma MakeDay_months:
  "MakeDay y 0 = DayFromYear y"
  "MakeDay y 1 = DayFromYear y + 31"
  "MakeDay y 2 = DayFromYear y + 59 + InLeapYear y"
  "MakeDay y 3 = DayFromYear y + 90 + InLeapYear y"
  "MakeDay y 4 = DayFromYear y + 120 + InLeapYear y"
  "MakeDay y 5 = DayFromYear y + 151 + InLeapYear y"
  "MakeDay y 6 = DayFromYear y + 181 + InLeapYear y"
  "MakeDay y 7 = DayFromYear y + 212 + InLeapYear y"
  "MakeDay y 8 = DayFromYear y + 243 + InLeapYear y"
  "MakeDay y 9 = DayFromYear y + 273 + InLeapYear y"
  "MakeDay y 10 = DayFromYear y + 304 + InLeapYear y"
  "MakeDay y 11 = DayFromYear y + 334 + InLeapYear y"
  "MakeDay y 12 = DayFromYear y + 365 + InLeapYear y"
  using DayFromYear_step [of y]
  by (simp_all add: MakeDay_def Let_def monthStart_def DaysInYear_leap)




lemma MakeDay_ge_year:
  assumes "0 \<le> m" "m \<le> 12"
  shows "DayFromYear y \<le> MakeDay y m"
proof (cases "m = 12")
  case True
  then show ?thesis using InLeapYear_cases [of y] by (auto simp: MakeDay_months)
next
  case False
  with assms have "m \<le> 11" by simp
  from month_cases [OF assms(1) this] show ?thesis
    using InLeapYear_cases [of y] by (auto simp: MakeDay_months)
qed




lemma MakeDay_le_next_year:
  assumes "0 \<le> m" "m \<le> 12"
  shows "MakeDay y m \<le> DayFromYear (y + 1)"
proof (cases "m = 12")
  case True
  then show ?thesis using DayFromYear_step [of y] by (simp add: MakeDay_months DaysInYear_leap)
next
  case False
  with assms have "m \<le> 11" by simp
  from month_cases [OF assms(1) this] show ?thesis
    using InLeapYear_cases [of y] DayFromYear_step [of y]
    by (auto simp: MakeDay_months DaysInYear_leap)
qed




lemma quarter_end_after_month:
  assumes "0 \<le> m" "m \<le> 11"
  shows "MakeDay y (m + 1) \<le> MakeDay y (m div 3 * 3 + 3)"
  using month_cases [OF assms] InLeapYear_cases [of y]
  by (auto simp: MakeDay_months)




lemma month_bracket:
  "MakeDay (YearFromDay d) (MonthFromDay d) \<le> d \<and> d < MakeDay (YearFromDay d) (MonthFromDay d + 1)"
proof -
  define y where "y = YearFromDay d"
  define w where "w = d - DayFromYear y"
  define l where "l = InLeapYear y"
  define k where "k = MonthFromDay d"
  have l: "l = 0 \<or> l = 1" by (simp add: l_def InLeapYear_cases)
  from YearFromDay_bracket [of d] have w: "0 \<le> w" "w < 365 + l"
    using DayFromYear_step [of y] by (simp_all add: w_def y_def l_def DaysInYear_leap)
  have d: "d = DayFromYear y + w" by (simp add: w_def)
  have m: "k =
     (if w < 31 then 0 else if w < 59 + l then 1 else if w < 90 + l then 2
      else if w < 120 + l then 3 else if w < 151 + l then 4 else if w < 181 + l then 5
      else if w < 212 + l then 6 else if w < 243 + l then 7 else if w < 273 + l then 8
      else if w < 304 + l then 9 else if w < 334 + l then 10 else 11)"
    by (simp add: k_def MonthFromDay_def Let_def y_def [symmetric] w_def [symmetric] l_def [symmetric])
  have r: "0 \<le> k" "k \<le> 11"
    using MonthFromDay_range [of d] by (simp_all add: k_def)
  have "MakeDay y k \<le> DayFromYear y + w \<and> DayFromYear y + w < MakeDay y (k + 1)"
    using month_cases [OF r] m w l
    by (auto simp: MakeDay_months l_def [symmetric] split: if_splits)
  then show ?thesis unfolding y_def k_def w_def by simp
qed


lemma month_table_start:
  fixes l m :: int
  assumes "l = 0 \<or> l = 1" "0 \<le> m" "m \<le> 11"
  shows "(if monthStart m l < 31 then 0
          else if monthStart m l < 59 + l then 1
          else if monthStart m l < 90 + l then 2
          else if monthStart m l < 120 + l then 3
          else if monthStart m l < 151 + l then 4
          else if monthStart m l < 181 + l then 5
          else if monthStart m l < 212 + l then 6
          else if monthStart m l < 243 + l then 7
          else if monthStart m l < 273 + l then 8
          else if monthStart m l < 304 + l then 9
          else if monthStart m l < 334 + l then 10
          else 11) = m"
proof -
  from assms(1) show ?thesis
  proof
    assume "l = 0"
    with month_cases [OF assms(2,3)] show ?thesis
      by (elim disjE) (simp_all add: monthStart_def)
  next
    assume "l = 1"
    with month_cases [OF assms(2,3)] show ?thesis
      by (elim disjE) (simp_all add: monthStart_def)
  qed
qed

lemma MakeDay_roundtrip:
  assumes "0 \<le> m" "m \<le> 11"
  shows "YearFromDay (MakeDay y m) = y \<and> MonthFromDay (MakeDay y m) = m"
proof -
  define l where "l = InLeapYear y"
  have l: "l = 0 \<or> l = 1" by (simp add: l_def InLeapYear_cases)
  have md: "MakeDay y m = DayFromYear y + monthStart m l"
    using assms by (simp add: MakeDay_def Let_def l_def div_pos_pos_trivial mod_pos_pos_trivial)
  have "DayFromYear y \<le> MakeDay y m"
    using assms by (intro MakeDay_ge_year) simp_all
  moreover have "MakeDay y m < MakeDay y 12"
    using month_cases [OF assms] l by (auto simp: MakeDay_months l_def [symmetric])
  then have "MakeDay y m < DayFromYear (y + 1)"
    using DayFromYear_step [of y] by (simp add: MakeDay_months DaysInYear_leap)
  ultimately have yr: "YearFromDay (MakeDay y m) = y"
    by (rule YearFromDay_unique)
  have "MonthFromDay (MakeDay y m) = m"
    unfolding MonthFromDay_def yr Let_def l_def [symmetric]
    by (simp only: md add_diff_cancel_left' month_table_start [OF l assms])
  with yr show ?thesis by simp
qed


lemma localDay_newDate:
  "localDay tz (MakeDay y m * msPerDay - tz) = MakeDay y m"
  by (simp add: localDay_def msPerDay_def)

lemma before_day_start:
  assumes "localDay tz t < B"
  shows "t < B * msPerDay - tz"
proof -
  define q where "q = (t + tz) div msPerDay"
  define r where "r = (t + tz) mod msPerDay"
  have "t + tz = q * msPerDay + r"
    by (simp add: q_def r_def)
  moreover have "r < msPerDay"
    by (simp add: r_def msPerDay_def)
  moreover from assms have "q + 1 \<le> B"
    by (simp add: localDay_def q_def)
  then have "(q + 1) * msPerDay \<le> B * msPerDay"
    by (simp add: msPerDay_def)
  then have "q * msPerDay + msPerDay \<le> B * msPerDay"
    by (simp add: algebra_simps)
  ultimately show ?thesis by linarith
qed

lemma century_year:
  fixes y :: int
  shows "y \<le> (if 0 \<le> y \<and> y \<le> 99 then 1900 + y else y)"
  by auto

lemma MakeDay_century:
  assumes "0 \<le> k" "k \<le> 12"
  shows "MakeDay y k \<le> MakeDay (if 0 \<le> y \<and> y \<le> 99 then 1900 + y else y) k"
proof (cases "0 \<le> y \<and> y \<le> 99")
  case False
  then show ?thesis by auto
next
  case True
  have "MakeDay y k \<le> DayFromYear (y + 1)"
    using assms by (rule MakeDay_le_next_year)
  also have "\<dots> \<le> DayFromYear (1900 + y)"
    by (rule DayFromYear_mono) simp
  also have "\<dots> \<le> MakeDay (1900 + y) k"
    using assms by (rule MakeDay_ge_year)
  finally show ?thesis using True by simp
qed

lemma nextStart_day:
  "\<exists>B. localDay tz cur < B \<and> nextStart tz granularity cur = B * msPerDay - tz"
proof -
  define d where "d = localDay tz cur"
  define y where "y = YearFromDay d"
  define m where "m = MonthFromDay d"
  have r: "0 \<le> m" "m \<le> 11"
    using MonthFromDay_range [of d] by (simp_all add: m_def)
  have up: "d < MakeDay y (m + 1)"
    using month_bracket [of d] by (simp add: y_def m_def)
  show ?thesis
  proof (cases "granularity = ''year''")
    case True
    define Y where "Y = (if 0 \<le> y + 1 \<and> y + 1 \<le> 99 then 1900 + (y + 1) else y + 1)"
    have "d < DayFromYear (y + 1)"
      using YearFromDay_bracket [of d] by (simp add: y_def)
    also have "\<dots> \<le> DayFromYear Y"
      by (rule DayFromYear_mono) (auto simp: Y_def)
    finally have "d < MakeDay Y 0" by (simp add: MakeDay_months)
    moreover have "nextStart tz granularity cur = MakeDay Y 0 * msPerDay - tz"
      using True by (simp add: nextStart_def newDate_def getFullYear_def Let_def
          d_def [symmetric] y_def [symmetric] Y_def)
    ultimately show ?thesis unfolding d_def by blast
  next
    case notYear: False
    define Y where "Y = (if 0 \<le> y \<and> y \<le> 99 then 1900 + y else y)"
    have Y99: "(if 0 \<le> Y \<and> Y \<le> 99 then 1900 + Y else Y) = Y" by (auto simp: Y_def)
    show ?thesis
    proof (cases "granularity = ''quarter''")
      case True
      define q where "q = m div 3"
      have q: "0 \<le> q * 3" "q * 3 \<le> 11"
        using r by (simp_all add: q_def)
      have qs: "startOfQuarter tz cur = MakeDay Y (q * 3) * msPerDay - tz"
        by (simp add: startOfQuarter_def newDate_def getMonth_def getFullYear_def Let_def
            d_def [symmetric] y_def [symmetric] m_def [symmetric] q_def Y_def)
      have rt: "YearFromDay (MakeDay Y (q * 3)) = Y" "MonthFromDay (MakeDay Y (q * 3)) = q * 3"
        using MakeDay_roundtrip [OF q, of Y] by simp_all
      have "nextStart tz granularity cur = newDate tz Y (q * 3 + 3)"
        using True notYear
        by (simp add: nextStart_def Let_def qs getFullYear_def getMonth_def localDay_newDate rt)
      also have "\<dots> = MakeDay Y (q * 3 + 3) * msPerDay - tz"
        unfolding newDate_def Let_def Y99 by (rule refl)
      finally have nx: "nextStart tz granularity cur = MakeDay Y (q * 3 + 3) * msPerDay - tz" .
      have "d < MakeDay y (m + 1)" by (rule up)
      also have "\<dots> \<le> MakeDay y (q * 3 + 3)"
        unfolding q_def using r by (rule quarter_end_after_month)
      also have "\<dots> \<le> MakeDay Y (q * 3 + 3)"
        unfolding Y_def using q by (intro MakeDay_century) simp_all
      finally show ?thesis using nx unfolding d_def by blast
    next
      case False
      have nx: "nextStart tz granularity cur = MakeDay Y (m + 1) * msPerDay - tz"
        using False notYear
        by (simp add: nextStart_def newDate_def getFullYear_def getMonth_def Let_def
            d_def [symmetric] y_def [symmetric] m_def [symmetric] Y_def)
      have "d < MakeDay y (m + 1)" by (rule up)
      also have "\<dots> \<le> MakeDay Y (m + 1)"
        unfolding Y_def using r by (intro MakeDay_century) simp_all
      finally show ?thesis using nx unfolding d_def by blast
    qed
  qed
qed

lemma nextStart_after: "cur < nextStart tz granularity cur"
proof -
  from nextStart_day [of tz cur granularity] obtain B where
    "localDay tz cur < B" "nextStart tz granularity cur = B * msPerDay - tz" by blast
  then show ?thesis using before_day_start by simp
qed

section \<open>Stage aggregator\<close>

text \<open>
  The loop \<open>while (cur <= end)\<close> of \<open>buildStages\<close>, returning the stages it pushes. The
  first argument is the host's offset from UTC, which the source reads from its environment
  through the \<open>Date\<close> methods.
\<close>

function stages_loop :: "int \<Rightarrow> int \<Rightarrow> string \<Rightarrow> int \<Rightarrow> stage list" where
  "stages_loop tz end granularity cur =
     (if cur \<le> end then
        (let next = nextStart tz granularity cur;
             stageStart = cur;
             stageEnd = min end (next - msPerDay);
             label = stageLabel tz granularity stageStart
         in \<lparr>st_start = stageStart, st_end = stageEnd, st_label = label\<rparr>
              # stages_loop tz end granularity next)
      else [])"
  by pat_completeness auto
termination
proof (relation "measure (\<lambda>(tz, end, granularity, cur). nat (end - cur + 1))")
  show "wf (measure (\<lambda>(tz, end, granularity, cur). nat (end - cur + 1)))" by simp
next
  fix tz "end" :: int and granularity :: string and cur x :: int
  assume "cur \<le> end" "x = nextStart tz granularity cur"
  then show "((tz, end, granularity, x), (tz, end, granularity, cur))
              \<in> measure (\<lambda>(tz, end, granularity, cur). nat (end - cur + 1))"
    using nextStart_after [of cur tz granularity] by simp
qed

declare stages_loop.simps [simp del]

definition buildStages :: "int \<Rightarrow> int \<Rightarrow> int \<Rightarrow> string \<Rightarrow> stage list" where
  "buildStages tz start end granularity = stages_loop tz end granularity start"

section \<open>Notions used to state the properties\<close>

text \<open>The longest strictly increasing prefix of a list of positions.\<close>

fun inc_prefix :: "nat list \<Rightarrow> nat list" where
  "inc_prefix [] = []"
| "inc_prefix [x] = [x]"
| "inc_prefix (x # y # ys) = (if x < y then x # inc_prefix (y # ys) else [x])"

text \<open>
  How many further contributions the sequential pointer of \<open>simulateDCA\<close> can still make
  when the loop is at position \<open>i\<close> and \<open>rem\<close> is the part of the schedule from the pointer on.
\<close>

definition pending :: "nat \<Rightarrow> nat list \<Rightarrow> nat" where
  "pending i rem = (case rem of [] \<Rightarrow> 0 | x # r \<Rightarrow> if x < i then 0 else length (inc_prefix rem))"

text \<open>
  The positions of the set \<open>S\<close> from \<open>i\<close> on that lie in the series and whose day is inside
  the window \<open>[start, end]\<close>.
\<close>

definition scheduledInWindow :: "point list \<Rightarrow> int \<Rightarrow> int \<Rightarrow> nat set \<Rightarrow> nat \<Rightarrow> nat set" where
  "scheduledInWindow data start end S i =
     {x \<in> S. i \<le> x \<and> x < length data \<and> start \<le> pt_t (data ! x) \<and> pt_t (data ! x) \<le> end}"

text \<open>The cumulative cash of the last timeline entry, zero for an empty timeline.\<close>

definition finalCashIn :: "entry list \<Rightarrow> real" where
  "finalCashIn tline = (if tline = [] then 0 else e_cashIn (last tline))"

text \<open>Adjacent entries of a column never decrease.\<close>

fun nonDecreasing :: "real list \<Rightarrow> bool" where
  "nonDecreasing [] = True"
| "nonDecreasing [x] = True"
| "nonDecreasing (x # y # ys) = (x \<le> y \<and> nonDecreasing (y # ys))"

text \<open>A two-point series with a gap of two missing days between its points.\<close>

definition gapSeries :: "point list" where
  "gapSeries = [\<lparr>pt_t = 0, pt_p = 100\<rparr>, \<lparr>pt_t = 3 * 86400000, pt_p = 100\<rparr>]"

text \<open>Every price of the series is positive, as the data model requires of a price point.\<close>

definition positivePrices :: "point list \<Rightarrow> bool" where
  "positivePrices data = list_all (\<lambda>d. 0 < pt_p d) data"

text \<open>Two consecutive days at the same price.\<close>

definition flatSeries :: "point list" where
  "flatSeries = [\<lparr>pt_t = 0, pt_p = 100\<rparr>, \<lparr>pt_t = 86400000, pt_p = 100\<rparr>]"

text \<open>
  The deployment rule of the dip strategy, read off a timeline. \<open>peak\<close>, \<open>prevCashIn\<close>,
  \<open>prevUnits\<close> and \<open>prevPile\<close> describe the state before the first entry. For each entry the
  pile is the previous pile plus the cash paid in on that day; when the drawdown from the
  running peak reaches \<open>dipPct\<close> and the pile satisfies \<open>nonEmpty\<close>, the entry must hold the
  previous units plus the whole pile converted at the day's price and an empty pile.
  Every entry's value must be its units at the day's price plus its idle cash.
\<close>

fun deploysOnDip :: "(real \<Rightarrow> bool) \<Rightarrow> real \<Rightarrow> real option \<Rightarrow> real \<Rightarrow> real \<Rightarrow> real \<Rightarrow> entry list \<Rightarrow> bool" where
  "deploysOnDip nonEmpty dipPct peak prevCashIn prevUnits prevPile [] = True"
| "deploysOnDip nonEmpty dipPct peak prevCashIn prevUnits prevPile (e # es) =
     (let peak' = max_peak peak (e_p e);
          pile = prevPile + (e_cashIn e - prevCashIn)
      in ((peak' - e_p e) / peak' \<ge> dipPct \<and> nonEmpty pile \<longrightarrow>
            e_units e = prevUnits + pile / e_p e \<and> e_cashPile e = Some 0)
         \<and> (case e_cashPile e of
                None \<Rightarrow> False
              | Some c \<Rightarrow> e_value e = e_units e * e_p e + c
                  \<and> deploysOnDip nonEmpty dipPct (Some peak') (e_cashIn e) (e_units e) c es))"

text \<open>Two consecutive days; the price halves on the second.\<close>

definition crashSeries :: "point list" where
  "crashSeries = [\<lparr>pt_t = 0, pt_p = 100\<rparr>, \<lparr>pt_t = 86400000, pt_p = 50\<rparr>]"

text \<open>
  The return of the adjacent pair ending at position \<open>i\<close> of a value column, and the
  returns of all pairs in order: the quotient minus one where the previous value is
  positive, zero where it is not.
\<close>

definition pairReturns :: "real list \<Rightarrow> real list" where
  "pairReturns vs =
     map (\<lambda>i. if vs ! (i - 1) > 0 then vs ! i / vs ! (i - 1) - 1 else 0) [1..<length vs]"

text \<open>
  The returns of the pairs whose previous value is positive only, as the claim describes
  the collection.
\<close>

definition positivePairReturns :: "real list \<Rightarrow> real list" where
  "positivePairReturns vs =
     map (\<lambda>i. vs ! i / vs ! (i - 1) - 1) (filter (\<lambda>i. vs ! (i - 1) > 0) [1..<length vs])"

text \<open>The sample standard deviation with Bessel's correction.\<close>

definition sampleStdDev :: "real list \<Rightarrow> real" where
  "sampleStdDev xs =
     sqrt ((\<Sum>x\<leftarrow>xs. (x - sum_list xs / real (length xs))\<^sup>2) / (real (length xs) - 1))"

text \<open>No day of the series lies inside the window \<open>[start, end]\<close>.\<close>

definition noDayInWindow :: "point list \<Rightarrow> int \<Rightarrow> int \<Rightarrow> bool" where
  "noDayInWindow data start end = list_all (\<lambda>d. pt_t d < start \<or> end < pt_t d) data"

text \<open>The empty timeline with the zeroed summary.\<close>

definition emptySim :: sim where
  "emptySim = \<lparr>timeline = [], result = \<lparr>r_cashIn = 0, r_units = 0, r_endValue = 0\<rparr>\<rparr>"

text \<open>Three consecutive days of rising prices.\<close>

definition risingSeries :: "point list" where
  "risingSeries = [\<lparr>pt_t = 0, pt_p = 100\<rparr>, \<lparr>pt_t = 86400000, pt_p = 110\<rparr>,
                   \<lparr>pt_t = 2 * 86400000, pt_p = 132\<rparr>]"

text \<open>A time value that is a midnight of the host's local time.\<close>

definition localMidnight :: "int \<Rightarrow> int \<Rightarrow> bool" where
  "localMidnight tz t = ((t + tz) mod msPerDay = 0)"

text \<open>Each stage ends one day before the next one starts.\<close>

fun contiguous :: "stage list \<Rightarrow> bool" where
  "contiguous (a # b # rest) = (st_end a + msPerDay = st_start b \<and> contiguous (b # rest))"
| "contiguous stages = True"

text \<open>
  The stages tile \<open>[start, end]\<close>: the first starts at \<open>start\<close>, the last ends at \<open>end\<close>,
  each ends one day before the next starts, and none ends before it starts.
\<close>

definition tiles :: "int \<Rightarrow> int \<Rightarrow> stage list \<Rightarrow> bool" where
  "tiles start end stages =
     (stages \<noteq> [] \<and> st_start (hd stages) = start \<and> st_end (last stages) = end
      \<and> contiguous stages \<and> list_all (\<lambda>s. st_start s \<le> st_end s) stages)"

text \<open>A host eight hours ahead of UTC.\<close>

definition utcPlus8 :: int where
  "utcPlus8 = 8 * 3600000"

text \<open>
  The cursor values of a schedule that starts at \<open>first\<close> and advances by \<open>step\<close>
  milliseconds while it has not passed \<open>endDate\<close>: \<open>first\<close>, \<open>first + step\<close>,
  \<open>first + 2 * step\<close> and so on, in closed form.
\<close>

definition ticks :: "int \<Rightarrow> int \<Rightarrow> int \<Rightarrow> int list" where
  "ticks first endDate step =
     map (\<lambda>k. first + int k * step) [0..<nat ((endDate - first) div step + 1)]"

text \<open>
  The first position from \<open>iStart\<close> on whose day is not before \<open>cursor\<close>, if there is one
  and its day is not after \<open>endDate\<close>.
\<close>

definition firstOnOrAfter :: "point list \<Rightarrow> nat \<Rightarrow> int \<Rightarrow> int \<Rightarrow> nat option" where
  "firstOnOrAfter data iStart endDate cursor =
     (case findIndex (\<lambda>d. cursor \<le> pt_t d) (drop iStart data) of
        None \<Rightarrow> None
      | Some k \<Rightarrow> if pt_t (data ! (iStart + k)) \<le> endDate then Some (iStart + k) else None)"

text \<open>
  The schedule that contributes every \<open>days\<close> calendar days: for each cursor value from the
  first day on or after \<open>start\<close>, in steps of \<open>days\<close> days up to the earlier of \<open>end\<close>
  and the last day of the series, the first position on or after the cursor.
\<close>

definition scheduleEvery :: "int \<Rightarrow> point list \<Rightarrow> int \<Rightarrow> int \<Rightarrow> nat list" where
  "scheduleEvery days data start end =
     (case findIndex (\<lambda>d. start \<le> pt_t d) data of
        None \<Rightarrow> []
      | Some iStart \<Rightarrow>
          (let first = pt_t (data ! iStart);
               endDate = min end (pt_t (last data))
           in List.map_filter (firstOnOrAfter data iStart endDate)
                (ticks first endDate (days * msPerDay))))"

text \<open>Ten consecutive days, and a series with days 0, 7, 30, 37 and 60.\<close>

definition tenDays :: "point list" where
  "tenDays = map (\<lambda>k. \<lparr>pt_t = int k * 86400000, pt_p = 100\<rparr>) [0..<10]"

definition sparseSeries :: "point list" where
  "sparseSeries = map (\<lambda>k. \<lparr>pt_t = k * 86400000, pt_p = 100\<rparr>) [0, 7, 30, 37, 60]"

text \<open>A host five hours behind UTC.\<close>

definition utcMinus5 :: int where
  "utcMinus5 = - (5 * 3600000)"

section \<open>Facts about the schedule\<close>

lemma findIndex_Some:
  "findIndex P xs = Some i \<Longrightarrow> i < length xs \<and> P (xs ! i)"
proof (induction xs arbitrary: i)
  case Nil
  then show ?case by simp
next
  case (Cons x xs)
  then show ?case by (auto split: if_splits)
qed

lemma findIndex_None: "findIndex P xs = None \<Longrightarrow> x \<in> set xs \<Longrightarrow> \<not> P x"
  by (induction xs) (auto split: if_splits)

lemma scan_ge: "j \<le> scan data cursor j"
proof (induction data cursor j rule: scan.induct)
  case (1 data cursor j)
  then show ?case by (subst scan.simps) auto
qed

lemma scan_stop:
  "scan data cursor j < length data \<Longrightarrow> cursor \<le> pt_t (data ! scan data cursor j)"
proof (induction data cursor j rule: scan.induct)
  case (1 data cursor j)
  show ?case
  proof (cases "j < length data \<and> pt_t (data ! j) < cursor")
    case True
    then have eq: "scan data cursor j = scan data cursor (Suc j)"
      by (subst scan.simps) simp
    with 1 True show ?thesis by simp
  next
    case False
    then have eq: "scan data cursor j = j"
      by (subst scan.simps) auto
    with 1 False show ?thesis by auto
  qed
qed

lemma scan_mono: "c \<le> c' \<Longrightarrow> scan data c j \<le> scan data c' j"
proof (induction data c j rule: scan.induct)
  case (1 data cursor j)
  show ?case
  proof (cases "j < length data \<and> pt_t (data ! j) < cursor")
    case True
    then have "scan data cursor j = scan data cursor (Suc j)"
      by (subst scan.simps) simp
    moreover from True 1(2) have "scan data c' j = scan data c' (Suc j)"
      by (subst scan.simps) simp
    ultimately show ?thesis using 1 True by simp
  next
    case False
    then have "scan data cursor j = j"
      by (subst scan.simps) auto
    then show ?thesis by (simp add: scan_ge)
  qed
qed

lemma schedule_loop_elem:
  "x \<in> set (schedule_loop data iStart endDate f cursor) \<Longrightarrow>
   x < length data \<and> cursor \<le> pt_t (data ! x) \<and> pt_t (data ! x) \<le> endDate
   \<and> scan data cursor iStart \<le> x"
proof (induction data iStart endDate f cursor rule: schedule_loop.induct)
  case (1 data iStart endDate frequency cursor)
  let ?c' = "cursor + stepDays frequency * msPerDay"
  have step: "cursor \<le> ?c'"
    by (simp add: stepDays_def msPerDay_def)
  show ?case
  proof (cases "cursor \<le> endDate")
    case False
    with 1(2) show ?thesis by (subst (asm) schedule_loop.simps) simp
  next
    case True
    from 1(2) True have
      "x = scan data cursor iStart \<and> x < length data \<and> pt_t (data ! x) \<le> endDate
       \<or> x \<in> set (schedule_loop data iStart endDate frequency ?c')"
      by (subst (asm) schedule_loop.simps) (auto simp: Let_def split: if_splits)
    then show ?thesis
    proof
      assume "x = scan data cursor iStart \<and> x < length data \<and> pt_t (data ! x) \<le> endDate"
      then show ?thesis using scan_stop [of data cursor iStart] by auto
    next
      assume "x \<in> set (schedule_loop data iStart endDate frequency ?c')"
      with 1(1) [OF True refl] have
        "x < length data \<and> ?c' \<le> pt_t (data ! x) \<and> pt_t (data ! x) \<le> endDate
         \<and> scan data ?c' iStart \<le> x" by simp
      moreover have "scan data cursor iStart \<le> scan data ?c' iStart"
        using step by (rule scan_mono)
      ultimately show ?thesis using step by linarith
    qed
  qed
qed

lemma schedule_loop_sorted: "sorted (schedule_loop data iStart endDate f cursor)"
proof (induction data iStart endDate f cursor rule: schedule_loop.induct)
  case (1 data iStart endDate frequency cursor)
  let ?c' = "cursor + stepDays frequency * msPerDay"
  have step: "cursor \<le> ?c'"
    by (simp add: stepDays_def msPerDay_def)
  show ?case
  proof (cases "cursor \<le> endDate")
    case False
    then show ?thesis by (subst schedule_loop.simps) simp
  next
    case True
    have rest: "sorted (schedule_loop data iStart endDate frequency ?c')"
      using 1 [OF True refl] .
    have low: "scan data cursor iStart \<le> x"
      if "x \<in> set (schedule_loop data iStart endDate frequency ?c')" for x
      using schedule_loop_elem [OF that] scan_mono [OF step, of data iStart] by linarith
    show ?thesis
      using True rest low by (subst schedule_loop.simps) (simp add: Let_def)
  qed
qed

lemma buildScheduleIdx_elem:
  assumes "x \<in> set (buildScheduleIdx data start end f)"
  shows "x < length data \<and> start \<le> pt_t (data ! x) \<and> pt_t (data ! x) \<le> end"
proof (cases "findIndex (\<lambda>d. start \<le> pt_t d) data")
  case None
  with assms show ?thesis by (simp add: buildScheduleIdx_def)
next
  case (Some iStart)
  define lastDate where "lastDate = pt_t (data ! (length data - 1))"
  define endDate where "endDate = (if end \<le> lastDate then end else lastDate)"
  have le: "endDate \<le> end"
    by (simp add: endDate_def)
  from assms Some have mem: "x \<in> set (schedule_loop data iStart endDate f (pt_t (data ! iStart)))"
    by (auto simp: buildScheduleIdx_def Let_def endDate_def lastDate_def split: if_splits)
  from schedule_loop_elem [OF mem] findIndex_Some [OF Some] le
  show ?thesis by auto
qed

lemma buildScheduleIdx_sorted: "sorted (buildScheduleIdx data start end f)"
  by (simp add: buildScheduleIdx_def Let_def schedule_loop_sorted split: option.splits)

section \<open>Capital paid in by the simulators\<close>

lemma pending_skip: "rem = [] \<or> hd rem \<noteq> i \<Longrightarrow> pending i rem = pending (Suc i) rem"
  by (cases rem) (auto simp: pending_def)

lemma pending_hit: "sorted (i # r) \<Longrightarrow> pending i (i # r) = Suc (pending (Suc i) r)"
  by (cases r) (auto simp: pending_def)

lemma dca_loop_cashIn:
  assumes srt: "sorted s"
    and win: "\<forall>x\<in>set s. x < length data \<and> start \<le> pt_t (data ! x) \<and> pt_t (data ! x) \<le> end"
  shows "ds = drop i data \<Longrightarrow>
         fst (snd (dca_loop s start end amount i ds c u k)) = c + amount * real (pending i (drop k s))"
proof (induction ds arbitrary: i c u k)
  case Nil
  then have "length data \<le> i" by simp
  moreover have "x < length data" if "x \<in> set (drop k s)" for x
    using win that in_set_dropD by fastforce
  ultimately have "pending i (drop k s) = 0"
    by (cases "drop k s") (fastforce simp: pending_def)+
  then show ?case by simp
next
  case (Cons d ds)
  then have i: "i < length data"
    by (metis drop_eq_Nil2 list.distinct(1) not_le)
  with Cons.prems have d: "d = data ! i" and ds: "ds = drop (Suc i) data"
    by (simp_all add: Cons_nth_drop_Suc [symmetric])
  have hdmem: "hd (drop k s) \<in> set s" if "drop k s \<noteq> []"
    using that by (metis hd_in_set in_set_dropD)
  show ?case
  proof (cases "pt_t d < start \<or> pt_t d > end")
    case True
    have "drop k s = [] \<or> hd (drop k s) \<noteq> i"
      using hdmem win True d by fastforce
    then have "pending i (drop k s) = pending (Suc i) (drop k s)"
      by (rule pending_skip)
    with True Cons.IH [OF ds] show ?thesis by simp
  next
    case False
    show ?thesis
    proof (cases "k < length s \<and> i = s ! k")
      case True
      then have dk: "drop k s = i # drop (Suc k) s"
        by (simp add: Cons_nth_drop_Suc)
      have "sorted (drop k s)" using srt by (rule sorted_wrt_drop)
      with dk have "pending i (drop k s) = Suc (pending (Suc i) (drop (Suc k) s))"
        using pending_hit by metis
      with True False Cons.IH [OF ds] show ?thesis
        by (simp add: Let_def algebra_simps)
    next
      case nb: False
      have "drop k s = [] \<or> hd (drop k s) \<noteq> i"
        using nb by (cases "k < length s") (simp_all add: hd_drop_conv_nth)
      then have "pending i (drop k s) = pending (Suc i) (drop k s)"
        by (rule pending_skip)
      with nb False Cons.IH [OF ds] show ?thesis
        by (auto simp: Let_def)
    qed
  qed
qed

lemma simulateDCA_cashIn:
  "r_cashIn (result (simulateDCA data start end amount frequency))
   = amount * real (length (inc_prefix (buildScheduleIdx data start end frequency)))"
proof -
  let ?s = "buildScheduleIdx data start end frequency"
  have "fst (snd (dca_loop ?s start end amount 0 data 0 0 0)) = 0 + amount * real (pending 0 (drop 0 ?s))"
    by (rule dca_loop_cashIn) (auto simp: buildScheduleIdx_sorted dest: buildScheduleIdx_elem)
  moreover have "pending 0 ?s = length (inc_prefix ?s)"
    by (cases ?s) (simp_all add: pending_def)
  ultimately show ?thesis by (simp add: simulateDCA_def Let_def)
qed

lemma scheduledInWindow_out: "length data \<le> i \<Longrightarrow> scheduledInWindow data start end S i = {}"
  by (auto simp: scheduledInWindow_def)

lemma scheduledInWindow_skip:
  "i \<notin> S \<or> pt_t (data ! i) < start \<or> pt_t (data ! i) > end \<Longrightarrow>
   scheduledInWindow data start end S i = scheduledInWindow data start end S (Suc i)"
  by (auto simp: scheduledInWindow_def Suc_le_eq intro: le_neq_implies_less)

lemma scheduledInWindow_hit:
  "i \<in> S \<Longrightarrow> i < length data \<Longrightarrow> start \<le> pt_t (data ! i) \<Longrightarrow> pt_t (data ! i) \<le> end \<Longrightarrow>
   scheduledInWindow data start end S i = insert i (scheduledInWindow data start end S (Suc i))"
  by (auto simp: scheduledInWindow_def Suc_le_eq intro: le_neq_implies_less)

lemma card_scheduledInWindow_hit:
  assumes "finite S" "i \<in> S" "i < length data" "start \<le> pt_t (data ! i)" "pt_t (data ! i) \<le> end"
  shows "card (scheduledInWindow data start end S i)
         = Suc (card (scheduledInWindow data start end S (Suc i)))"
proof -
  have "finite (scheduledInWindow data start end S (Suc i))"
    using assms(1) by (simp add: scheduledInWindow_def)
  moreover have "i \<notin> scheduledInWindow data start end S (Suc i)"
    by (simp add: scheduledInWindow_def)
  ultimately show ?thesis
    using scheduledInWindow_hit [OF assms(2-5)] by simp
qed

lemma dip_loop_cashIn:
  assumes fin: "finite S"
  shows "ds = drop i data \<Longrightarrow>
         fst (snd (dip_loop S start end amount dipPct i ds c u cp pk))
         = c + amount * real (card (scheduledInWindow data start end S i))"
proof (induction ds arbitrary: i c u cp pk)
  case Nil
  then have "length data \<le> i" by simp
  then show ?case by (simp add: scheduledInWindow_out)
next
  case (Cons d ds)
  then have i: "i < length data"
    by (metis drop_eq_Nil2 list.distinct(1) not_le)
  with Cons.prems have d: "d = data ! i" and ds: "ds = drop (Suc i) data"
    by (simp_all add: Cons_nth_drop_Suc [symmetric])
  show ?case
  proof (cases "i \<in> S \<and> start \<le> pt_t d \<and> pt_t d \<le> end")
    case True
    then have "card (scheduledInWindow data start end S i)
               = Suc (card (scheduledInWindow data start end S (Suc i)))"
      using card_scheduledInWindow_hit [OF fin _ i] d by simp
    with True Cons.IH [OF ds] show ?thesis
      by (simp add: Let_def algebra_simps)
  next
    case False
    then have "scheduledInWindow data start end S i = scheduledInWindow data start end S (Suc i)"
      using scheduledInWindow_skip [of i S data start "end"] d by auto
    with False Cons.IH [OF ds] show ?thesis
      by (auto simp: Let_def)
  qed
qed

lemma trend_loop_cashIn:
  assumes fin: "finite S"
  shows "ds = drop i data \<Longrightarrow>
         fst (snd (trend_loop S ma start end amount maN i ds c u cp))
         = c + amount * real (card (scheduledInWindow data start end S i))"
proof (induction ds arbitrary: i c u cp)
  case Nil
  then have "length data \<le> i" by simp
  then show ?case by (simp add: scheduledInWindow_out)
next
  case (Cons d ds)
  then have i: "i < length data"
    by (metis drop_eq_Nil2 list.distinct(1) not_le)
  with Cons.prems have d: "d = data ! i" and ds: "ds = drop (Suc i) data"
    by (simp_all add: Cons_nth_drop_Suc [symmetric])
  show ?case
  proof (cases "i \<in> S \<and> start \<le> pt_t d \<and> pt_t d \<le> end")
    case True
    then have "card (scheduledInWindow data start end S i)
               = Suc (card (scheduledInWindow data start end S (Suc i)))"
      using card_scheduledInWindow_hit [OF fin _ i] d by simp
    with True Cons.IH [OF ds] show ?thesis
      by (simp add: Let_def algebra_simps)
  next
    case False
    then have "scheduledInWindow data start end S i = scheduledInWindow data start end S (Suc i)"
      using scheduledInWindow_skip [of i S data start "end"] d by auto
    with False Cons.IH [OF ds] show ?thesis
      by (auto simp: Let_def)
  qed
qed

lemma scheduledInWindow_all:
  "scheduledInWindow data start end (set (buildScheduleIdx data start end f)) 0
   = set (buildScheduleIdx data start end f)"
  using buildScheduleIdx_elem by (auto simp: scheduledInWindow_def)

lemma dca_loop_last:
  "fst (snd (dca_loop s start end amount i ds c u k))
   = (if fst (dca_loop s start end amount i ds c u k) = [] then c
      else e_cashIn (last (fst (dca_loop s start end amount i ds c u k))))"
  by (induction ds arbitrary: i c u k) (simp_all add: Let_def)

lemma dip_loop_last:
  "fst (snd (dip_loop S start end amount dipPct i ds c u cp pk))
   = (if fst (dip_loop S start end amount dipPct i ds c u cp pk) = [] then c
      else e_cashIn (last (fst (dip_loop S start end amount dipPct i ds c u cp pk))))"
  by (induction ds arbitrary: i c u cp pk) (simp_all add: Let_def)

lemma trend_loop_last:
  "fst (snd (trend_loop S ma start end amount maN i ds c u cp))
   = (if fst (trend_loop S ma start end amount maN i ds c u cp) = [] then c
      else e_cashIn (last (fst (trend_loop S ma start end amount maN i ds c u cp))))"
  by (induction ds arbitrary: i c u cp) (simp_all add: Let_def)

lemma simulateDCA_final:
  "finalCashIn (timeline (simulateDCA data start end amount frequency))
   = r_cashIn (result (simulateDCA data start end amount frequency))"
  using dca_loop_last [of "buildScheduleIdx data start end frequency" start "end" amount 0 data 0 0 0]
  by (simp add: simulateDCA_def finalCashIn_def Let_def)

lemma simulateDipBuy_final:
  "finalCashIn (timeline (simulateDipBuy data start end amount frequency dipPct))
   = r_cashIn (result (simulateDipBuy data start end amount frequency dipPct))"
  using dip_loop_last [of "set (buildScheduleIdx data start end frequency)" start "end" amount dipPct 0 data 0 0 0 None]
  by (simp add: simulateDipBuy_def finalCashIn_def Let_def)

lemma simulateTrendDCA_final:
  "finalCashIn (timeline (simulateTrendDCA data start end amount frequency maN))
   = r_cashIn (result (simulateTrendDCA data start end amount frequency maN))"
  using trend_loop_last [of "set (buildScheduleIdx data start end frequency)" "sma (map pt_p data) maN" start "end" amount maN 0 data 0 0 0]
  by (simp add: simulateTrendDCA_def finalCashIn_def Let_def)

lemma scheduledInWindow_0:
  "scheduledInWindow data start end S 0
   = {x \<in> S. x < length data \<and> start \<le> pt_t (data ! x) \<and> pt_t (data ! x) \<le> end}"
  by (simp add: scheduledInWindow_def)

lemma simulateDipBuy_cashIn:
  "r_cashIn (result (simulateDipBuy data start end amount frequency dipPct))
   = amount * real (card {x \<in> set (buildScheduleIdx data start end frequency).
                            x < length data \<and> start \<le> pt_t (data ! x) \<and> pt_t (data ! x) \<le> end})"
  by (simp add: simulateDipBuy_def Let_def dip_loop_cashIn [where data = data]
        scheduledInWindow_0)

lemma simulateTrendDCA_cashIn:
  "r_cashIn (result (simulateTrendDCA data start end amount frequency maN))
   = amount * real (card {x \<in> set (buildScheduleIdx data start end frequency).
                            x < length data \<and> start \<le> pt_t (data ! x) \<and> pt_t (data ! x) \<le> end})"
  by (simp add: simulateTrendDCA_def Let_def trend_loop_cashIn [where data = data]
        scheduledInWindow_0)

text \<open>
  Without a repeated position the sequential pointer pays every scheduled contribution, and
  the lump sum and the periodic contributions add up to the same capital.
\<close>

lemma inc_prefix_strict: "sorted_wrt (<) xs \<Longrightarrow> inc_prefix xs = xs"
  by (induction xs rule: inc_prefix.induct) auto

lemma simulateLumpSum_cashIn:
  "r_cashIn (result (simulateLumpSum data start end amount frequency))
   = amount * real (length (buildScheduleIdx data start end frequency))"
  by (cases "findIndex (\<lambda>d. start \<le> pt_t d) data")
     (simp_all add: simulateLumpSum_def Let_def buildScheduleIdx_def)

lemma capital_parity_without_repeats:
  assumes "sorted_wrt (<) (buildScheduleIdx data start end frequency)"
  shows "r_cashIn (result (simulateLumpSum data start end amount frequency))
         = r_cashIn (result (simulateDCA data start end amount frequency))"
  using assms by (simp add: simulateLumpSum_cashIn simulateDCA_cashIn inc_prefix_strict)

lemma gap_schedule: "buildScheduleIdx gapSeries 0 (3 * 86400000) ''daily'' = [0, 1, 1, 1]"
  by code_simp

section \<open>Columns of a timeline\<close>

lemma nonDecreasing_sorted: "nonDecreasing xs = sorted xs"
  by (induction xs rule: nonDecreasing.induct) fastforce+

lemma dca_loop_cashIn_mono:
  assumes "0 \<le> amount"
  shows "sorted (map e_cashIn (fst (dca_loop s start end amount i ds c u k)))
         \<and> (\<forall>e\<in>set (fst (dca_loop s start end amount i ds c u k)). c \<le> e_cashIn e)"
proof (induction ds arbitrary: i c u k)
  case Nil
  then show ?case by simp
next
  case (Cons d ds)
  show ?case
  proof (cases "pt_t d < start \<or> pt_t d > end")
    case True
    then show ?thesis using Cons.IH [of "Suc i" c u k] by simp
  next
    case False
    define c' where "c' = (if k < length s \<and> i = s ! k then c + amount else c)"
    define u' where "u' = (if k < length s \<and> i = s ! k then u + amount / pt_p d else u)"
    define k' where "k' = (if k < length s \<and> i = s ! k then Suc k else k)"
    have le: "c \<le> c'" using assms by (simp add: c'_def)
    have eq: "fst (dca_loop s start end amount i (d # ds) c u k)
      = \<lparr>e_t = pt_t d, e_p = pt_p d, e_cashIn = c', e_units = u', e_value = u' * pt_p d,
          e_cashPile = None, e_ma = None\<rparr> # fst (dca_loop s start end amount (Suc i) ds c' u' k')"
      using False by (simp add: Let_def c'_def u'_def k'_def)
    from Cons.IH [of "Suc i" c' u' k'] le show ?thesis
      unfolding eq by fastforce
  qed
qed

lemma dca_loop_units_mono:
  assumes "0 \<le> amount"
  shows "\<forall>d\<in>set ds. 0 < pt_p d \<Longrightarrow>
         sorted (map e_units (fst (dca_loop s start end amount i ds c u k)))
         \<and> (\<forall>e\<in>set (fst (dca_loop s start end amount i ds c u k)). u \<le> e_units e)"
proof (induction ds arbitrary: i c u k)
  case Nil
  then show ?case by simp
next
  case (Cons d ds)
  then have pos: "0 < pt_p d" and rest: "\<forall>d\<in>set ds. 0 < pt_p d" by simp_all
  show ?case
  proof (cases "pt_t d < start \<or> pt_t d > end")
    case True
    then show ?thesis using Cons.IH [OF rest, of "Suc i" c u k] by simp
  next
    case False
    define c' where "c' = (if k < length s \<and> i = s ! k then c + amount else c)"
    define u' where "u' = (if k < length s \<and> i = s ! k then u + amount / pt_p d else u)"
    define k' where "k' = (if k < length s \<and> i = s ! k then Suc k else k)"
    have le: "u \<le> u'" using assms pos by (simp add: u'_def)
    have eq: "fst (dca_loop s start end amount i (d # ds) c u k)
      = \<lparr>e_t = pt_t d, e_p = pt_p d, e_cashIn = c', e_units = u', e_value = u' * pt_p d,
          e_cashPile = None, e_ma = None\<rparr> # fst (dca_loop s start end amount (Suc i) ds c' u' k')"
      using False by (simp add: Let_def c'_def u'_def k'_def)
    from Cons.IH [OF rest, of "Suc i" c' u' k'] le show ?thesis
      unfolding eq by fastforce
  qed
qed

lemma ls_loop_const:
  "e \<in> set (ls_loop end t u ds) \<Longrightarrow> e_cashIn e = t \<and> e_units e = u"
  by (induction ds) (auto split: if_splits)

lemma ls_loop_mono:
  "sorted (map e_cashIn (ls_loop end t u ds)) \<and> sorted (map e_units (ls_loop end t u ds))"
  by (induction ds) (auto dest: ls_loop_const)

lemma dip_loop_mono:
  assumes "0 \<le> amount"
  shows "\<forall>d\<in>set ds. 0 < pt_p d \<Longrightarrow>
         sorted (map e_cashIn (fst (dip_loop S start end amount dipPct i ds c u cp pk)))
         \<and> (\<forall>e\<in>set (fst (dip_loop S start end amount dipPct i ds c u cp pk)). c \<le> e_cashIn e)
         \<and> sorted (map e_units (fst (dip_loop S start end amount dipPct i ds c u cp pk)))
         \<and> (\<forall>e\<in>set (fst (dip_loop S start end amount dipPct i ds c u cp pk)). u \<le> e_units e)"
proof (induction ds arbitrary: i c u cp pk)
  case Nil
  then show ?case by simp
next
  case (Cons d ds)
  then have pos: "0 < pt_p d" and rest: "\<forall>d\<in>set ds. 0 < pt_p d" by simp_all
  show ?case
  proof (cases "pt_t d < start \<or> pt_t d > end")
    case True
    then show ?thesis using Cons.IH [OF rest, of "Suc i" c u cp pk] by simp
  next
    case False
    define c' where "c' = (if i \<in> S then c + amount else c)"
    define cp' where "cp' = (if i \<in> S then cp + amount else cp)"
    define pk' where "pk' = max_peak pk (pt_p d)"
    define buy where "buy = (pk' \<noteq> 0 \<and> (pk' - pt_p d) / pk' \<ge> dipPct \<and> cp' > 0)"
    define u' where "u' = (if buy then u + cp' / pt_p d else u)"
    define cp'' where "cp'' = (if buy then 0 else cp')"
    have le: "c \<le> c'" "u \<le> u'"
      using assms pos by (simp_all add: c'_def u'_def buy_def)
    have eq: "fst (dip_loop S start end amount dipPct i (d # ds) c u cp pk)
      = \<lparr>e_t = pt_t d, e_p = pt_p d, e_cashIn = c', e_units = u', e_value = u' * pt_p d + cp'',
          e_cashPile = Some cp'', e_ma = None\<rparr>
        # fst (dip_loop S start end amount dipPct (Suc i) ds c' u' cp'' (Some pk'))"
      using False by (simp add: Let_def c'_def u'_def cp'_def cp''_def pk'_def buy_def)
    from Cons.IH [OF rest, of "Suc i" c' u' cp'' "Some pk'"] le show ?thesis
      unfolding eq by fastforce
  qed
qed

lemma trend_loop_mono:
  assumes "0 \<le> amount"
  shows "\<forall>d\<in>set ds. 0 < pt_p d \<Longrightarrow>
         sorted (map e_cashIn (fst (trend_loop S ma start end amount maN i ds c u cp)))
         \<and> (\<forall>e\<in>set (fst (trend_loop S ma start end amount maN i ds c u cp)). c \<le> e_cashIn e)
         \<and> sorted (map e_units (fst (trend_loop S ma start end amount maN i ds c u cp)))
         \<and> (\<forall>e\<in>set (fst (trend_loop S ma start end amount maN i ds c u cp)). u \<le> e_units e)"
proof (induction ds arbitrary: i c u cp)
  case Nil
  then show ?case by simp
next
  case (Cons d ds)
  then have pos: "0 < pt_p d" and rest: "\<forall>d\<in>set ds. 0 < pt_p d" by simp_all
  show ?case
  proof (cases "pt_t d < start \<or> pt_t d > end")
    case True
    then show ?thesis using Cons.IH [OF rest, of "Suc i" c u cp] by simp
  next
    case False
    define c' where "c' = (if i \<in> S then c + amount else c)"
    define cp' where "cp' = (if i \<in> S then cp + amount else cp)"
    define buy where "buy = (int i \<ge> int maN - 1
                    \<and> (case ma ! i of None \<Rightarrow> False | Some m \<Rightarrow> pt_p d > m) \<and> cp' > 0)"
    define u' where "u' = (if buy then u + cp' / pt_p d else u)"
    define cp'' where "cp'' = (if buy then 0 else cp')"
    have le: "c \<le> c'" "u \<le> u'"
      using assms pos by (simp_all add: c'_def u'_def buy_def)
    have eq: "fst (trend_loop S ma start end amount maN i (d # ds) c u cp)
      = \<lparr>e_t = pt_t d, e_p = pt_p d, e_cashIn = c', e_units = u', e_value = u' * pt_p d + cp'',
          e_cashPile = Some cp'', e_ma = ma ! i\<rparr>
        # fst (trend_loop S ma start end amount maN (Suc i) ds c' u' cp'')"
      using False by (simp add: Let_def c'_def u'_def cp'_def cp''_def buy_def)
    from Cons.IH [OF rest, of "Suc i" c' u' cp''] le show ?thesis
      unfolding eq by fastforce
  qed
qed

section \<open>Deployment of the cash pile\<close>

lemma max_peak_pos: "0 < p \<Longrightarrow> 0 < max_peak pk p"
  by (cases pk) (auto simp: max_peak_def)

lemma dip_loop_deploys:
  "\<forall>d\<in>set ds. 0 < pt_p d \<Longrightarrow>
   deploysOnDip (\<lambda>x. 0 < x) dipPct pk c u cp
     (fst (dip_loop S start end amount dipPct i ds c u cp pk))"
proof (induction ds arbitrary: i c u cp pk)
  case Nil
  then show ?case by simp
next
  case (Cons d ds)
  then have pos: "0 < pt_p d" and rest: "\<forall>d\<in>set ds. 0 < pt_p d" by simp_all
  show ?case
  proof (cases "pt_t d < start \<or> pt_t d > end")
    case True
    then show ?thesis using Cons.IH [OF rest, of pk c u cp "Suc i"] by simp
  next
    case False
    define c' where "c' = (if i \<in> S then c + amount else c)"
    define cp' where "cp' = (if i \<in> S then cp + amount else cp)"
    define pk' where "pk' = max_peak pk (pt_p d)"
    define buy where "buy = (pk' \<noteq> 0 \<and> (pk' - pt_p d) / pk' \<ge> dipPct \<and> cp' > 0)"
    define u' where "u' = (if buy then u + cp' / pt_p d else u)"
    define cp'' where "cp'' = (if buy then 0 else cp')"
    have eq: "fst (dip_loop S start end amount dipPct i (d # ds) c u cp pk)
      = \<lparr>e_t = pt_t d, e_p = pt_p d, e_cashIn = c', e_units = u', e_value = u' * pt_p d + cp'',
          e_cashPile = Some cp'', e_ma = None\<rparr>
        # fst (dip_loop S start end amount dipPct (Suc i) ds c' u' cp'' (Some pk'))"
      using False by (simp add: Let_def c'_def u'_def cp'_def cp''_def pk'_def buy_def)
    have pile: "cp + (c' - c) = cp'"
      by (simp add: c'_def cp'_def)
    have pk0: "pk' \<noteq> 0"
      using max_peak_pos [OF pos, of pk] by (simp add: pk'_def)
    have trig: "u' = u + cp' / pt_p d \<and> cp'' = 0" if "(pk' - pt_p d) / pk' \<ge> dipPct" "0 < cp'"
      using that pk0 by (simp add: u'_def cp''_def buy_def)
    from Cons.IH [OF rest, of "Some pk'" c' u' cp'' "Suc i"] trig pile show ?thesis
      unfolding eq by (simp add: Let_def pk'_def)
  qed
qed

section \<open>Volatility\<close>

lemma rets_loop_length: "length (rets_loop es) = length es - 1"
  by (induction es rule: rets_loop.induct) (simp_all add: Let_def)

lemma rets_loop_nth:
  "i < length es - 1 \<Longrightarrow>
   rets_loop es ! i = (if e_value (es ! i) > 0 then e_value (es ! Suc i) / e_value (es ! i) - 1 else 0)"
proof (induction es arbitrary: i rule: rets_loop.induct)
  case (1 a b es)
  show ?case
  proof (cases i)
    case 0
    then show ?thesis by (simp add: Let_def)
  next
    case (Suc j)
    with 1 show ?thesis by (simp add: Let_def)
  qed
qed simp_all

lemma rets_loop_pairReturns: "rets_loop es = pairReturns (map e_value es)"
proof (rule nth_equalityI)
  show "length (rets_loop es) = length (pairReturns (map e_value es))"
    by (simp add: rets_loop_length pairReturns_def)
next
  fix i assume "i < length (rets_loop es)"
  then have i: "i < length es - 1" by (simp add: rets_loop_length)
  then show "rets_loop es ! i = pairReturns (map e_value es) ! i"
    by (simp add: rets_loop_nth pairReturns_def)
qed

lemma foldl_plus: "foldl (\<lambda>a b. a + b) (a::real) xs = a + sum_list xs"
  by (induction xs arbitrary: a) simp_all

lemma foldl_squares:
  "foldl (\<lambda>s x. s + (x - m)\<^sup>2) (a::real) xs = a + (\<Sum>x\<leftarrow>xs. (x - m)\<^sup>2)"
  by (induction xs arbitrary: a) simp_all

lemma sum_squares_nonneg: "0 \<le> (\<Sum>x\<leftarrow>xs. (x - (m::real))\<^sup>2)"
  by (induction xs) simp_all

lemma volAnn_general:
  assumes "metricsFromTimeline tline = Some m"
  shows "m_volAnn m =
    sqrt ((\<Sum>x\<leftarrow>rets_loop tline.
            (x - sum_list (rets_loop tline) / real (if length (rets_loop tline) = 0 then 1 else length (rets_loop tline)))\<^sup>2)
          / real_of_int (max 1 (int (length (rets_loop tline)) - 1))) * sqrt 365"
proof -
  let ?rets = "rets_loop tline"
  let ?mean = "sum_list ?rets / real (if length ?rets = 0 then 1 else length ?rets)"
  let ?var = "(\<Sum>x\<leftarrow>?rets. (x - ?mean)\<^sup>2) / real_of_int (max 1 (int (length ?rets) - 1))"
  have nn: "0 \<le> ?var"
    by (intro divide_nonneg_nonneg sum_squares_nonneg) simp
  from assms have ne: "tline \<noteq> []"
    by (auto simp: metricsFromTimeline_def)
  from assms ne have "m_volAnn m = sqrt (max 0 ?var) * sqrt 365"
    by (auto simp: metricsFromTimeline_def Let_def foldl_plus foldl_squares)
  with nn show ?thesis by (simp add: max_def)
qed

section \<open>Empty windows\<close>

lemma dca_loop_empty:
  "\<forall>d\<in>set ds. pt_t d < start \<or> end < pt_t d \<Longrightarrow>
   dca_loop s start end amount i ds c u k = ([], c, u)"
  by (induction ds arbitrary: i) auto

lemma dip_loop_empty:
  "\<forall>d\<in>set ds. pt_t d < start \<or> end < pt_t d \<Longrightarrow>
   dip_loop S start end amount dipPct i ds c u cp pk = ([], c, u)"
  by (induction ds arbitrary: i) auto

lemma trend_loop_empty:
  "\<forall>d\<in>set ds. pt_t d < start \<or> end < pt_t d \<Longrightarrow>
   trend_loop S ma start end amount maN i ds c u cp = ([], c, u)"
  by (induction ds arbitrary: i) auto

lemma buildScheduleIdx_empty:
  assumes "\<forall>d\<in>set data. pt_t d < start \<or> end < pt_t d"
  shows "buildScheduleIdx data start end f = []"
proof (cases "buildScheduleIdx data start end f")
  case Nil
  then show ?thesis .
next
  case (Cons x xs)
  then have "x \<in> set (buildScheduleIdx data start end f)" by simp
  from buildScheduleIdx_elem [OF this] assms show ?thesis
    by (metis linorder_not_less nth_mem)
qed

lemma simulateLumpSum_empty:
  assumes "\<forall>d\<in>set data. pt_t d < start \<or> end < pt_t d"
  shows "simulateLumpSum data start end amount f = emptySim"
proof (cases "findIndex (\<lambda>d. start \<le> pt_t d) data")
  case None
  then show ?thesis by (simp add: simulateLumpSum_def emptySim_def)
next
  case (Some iStart)
  from findIndex_Some [OF Some] have i: "iStart < length data" and s: "start \<le> pt_t (data ! iStart)"
    by simp_all
  with assms have late: "end < pt_t (data ! iStart)"
    by (metis linorder_not_less nth_mem)
  from i have "drop iStart data = data ! iStart # drop (Suc iStart) data"
    by (simp add: Cons_nth_drop_Suc)
  with late have "ls_loop end t u (drop iStart data) = []" for t u
    by simp
  with Some show ?thesis
    by (simp add: simulateLumpSum_def emptySim_def Let_def buildScheduleIdx_empty [OF assms]
          lastValue_def)
qed

section \<open>Stages\<close>

lemma localMidnight_nextStart: "localMidnight tz (nextStart tz granularity cur)"
proof -
  from nextStart_day [of tz cur granularity] obtain B where
    "nextStart tz granularity cur = B * msPerDay - tz" by blast
  then show ?thesis by (simp add: localMidnight_def)
qed

lemma localMidnight_gap:
  assumes "localMidnight tz a" "localMidnight tz b" "a < b"
  shows "a + msPerDay \<le> b"
proof -
  from assms(1,2) have "msPerDay dvd b + tz" "msPerDay dvd a + tz"
    by (simp_all add: localMidnight_def mod_eq_0_iff_dvd)
  then have "msPerDay dvd (b + tz) - (a + tz)"
    by (rule dvd_diff)
  then have "msPerDay dvd b - a" by simp
  moreover have "0 < b - a" using assms(3) by simp
  ultimately have "msPerDay \<le> b - a" by (rule zdvd_imp_le)
  then show ?thesis by simp
qed

lemma stages_loop_tiles:
  "cur \<le> end \<Longrightarrow> localMidnight tz cur \<Longrightarrow> localMidnight tz end \<Longrightarrow>
   tiles cur end (stages_loop tz end granularity cur)"
proof (induction tz "end" granularity cur rule: stages_loop.induct)
  case (1 tz "end" granularity cur)
  define nxt where "nxt = nextStart tz granularity cur"
  define s where "s = \<lparr>st_start = cur, st_end = min end (nxt - msPerDay),
                         st_label = stageLabel tz granularity cur\<rparr>"
  have unf: "stages_loop tz end granularity cur = s # stages_loop tz end granularity nxt"
    using "1.prems"(1) by (subst stages_loop.simps) (simp add: Let_def s_def nxt_def)
  have after: "cur < nxt" by (simp add: nxt_def nextStart_after)
  have mid: "localMidnight tz nxt" by (simp add: nxt_def localMidnight_nextStart)
  have step: "cur + msPerDay \<le> nxt"
    using "1.prems"(2) mid after by (rule localMidnight_gap)
  show ?case
  proof (cases "nxt \<le> end")
    case True
    have rest: "tiles nxt end (stages_loop tz end granularity nxt)"
      using "1.IH" [OF "1.prems"(1) nxt_def refl refl refl True mid "1.prems"(3)] .
    then obtain b bs where bs: "stages_loop tz end granularity nxt = b # bs"
      by (cases "stages_loop tz end granularity nxt") (auto simp: tiles_def)
    from True have e: "st_end s = nxt - msPerDay"
      by (simp add: s_def msPerDay_def)
    from rest bs e step show ?thesis
      unfolding unf by (simp add: tiles_def s_def)
  next
    case False
    then have nil: "stages_loop tz end granularity nxt = []"
      by (subst stages_loop.simps) simp
    from False have "end < nxt" by simp
    with "1.prems"(3) mid have "end + msPerDay \<le> nxt"
      by (rule localMidnight_gap)
    then have "st_end s = end" by (simp add: s_def)
    with "1.prems"(1) show ?thesis
      unfolding unf nil by (simp add: tiles_def s_def)
  qed
qed


text \<open>
  When \<open>start\<close> and \<open>end\<close> are midnights of the host's local time, as they are on a host
  at UTC, the stages tile \<open>[start, end]\<close>.
\<close>

lemma stages_tile_local_midnights:
  assumes "start \<le> end" and "localMidnight tz start" and "localMidnight tz end"
  shows "tiles start end (buildStages tz start end granularity)"
  unfolding buildStages_def using assms by (rule stages_loop_tiles)

section \<open>Frequency mapping\<close>

lemma stepDays_other:
  "frequency \<noteq> ''daily'' \<Longrightarrow> frequency \<noteq> ''weekly'' \<Longrightarrow> stepDays frequency = 30"
  by (simp add: stepDays_def)

lemma ticks_Nil: "endDate < first \<Longrightarrow> 0 < step \<Longrightarrow> ticks first endDate step = []"
proof -
  assume a: "endDate < first" "0 < step"
  then have "(endDate - first) div step < 0"
    by (simp add: pos_imp_zdiv_neg_iff)
  then show ?thesis by (simp add: ticks_def)
qed

lemma ticks_Cons:
  assumes "first \<le> endDate" "0 < step"
  shows "ticks first endDate step = first # ticks (first + step) endDate step"
proof -
  define q where "q = (endDate - first) div step"
  have q: "0 \<le> q" using assms by (simp add: q_def pos_imp_zdiv_nonneg_iff)
  have "(endDate - (first + step)) div step = (endDate - first - step) div step"
    by (simp add: algebra_simps)
  also have "\<dots> = q - 1"
    using assms(2) div_add_self2 [of step "endDate - first - step"] by (simp add: q_def)
  finally have n': "nat ((endDate - (first + step)) div step + 1) = nat q" by simp
  have n: "nat ((endDate - first) div step + 1) = Suc (nat q)"
    using q by (simp add: q_def [symmetric] nat_add_distrib)
  have "ticks first endDate step = map (\<lambda>k. first + int k * step) [0..<Suc (nat q)]"
    by (simp only: ticks_def n)
  also have "\<dots> = first # map (\<lambda>k. first + int (Suc k) * step) [0..<nat q]"
    by (simp only: upt_conv_Cons [of 0 "Suc (nat q)"] map_Suc_upt [symmetric] list.map) (simp add: comp_def)
  also have "map (\<lambda>k. first + int (Suc k) * step) [0..<nat q] = ticks (first + step) endDate step"
    unfolding ticks_def n' by (simp add: algebra_simps)
  finally show ?thesis .
qed

lemma scan_findIndex:
  "j \<le> length data \<Longrightarrow>
   scan data cursor j =
     (case findIndex (\<lambda>d. cursor \<le> pt_t d) (drop j data) of None \<Rightarrow> length data | Some k \<Rightarrow> j + k)"
proof (induction data cursor j rule: scan.induct)
  case (1 data cursor j)
  show ?case
  proof (cases "j < length data")
    case False
    with 1(2) have "j = length data" by simp
    then show ?thesis by (subst scan.simps) simp
  next
    case True
    then have dr: "drop j data = data ! j # drop (Suc j) data"
      by (simp add: Cons_nth_drop_Suc)
    show ?thesis
    proof (cases "pt_t (data ! j) < cursor")
      case lt: True
      with True have "scan data cursor j = scan data cursor (Suc j)"
        by (subst scan.simps) simp
      also have "\<dots> = (case findIndex (\<lambda>d. cursor \<le> pt_t d) (drop (Suc j) data) of
                          None \<Rightarrow> length data | Some k \<Rightarrow> Suc j + k)"
        using 1(1) True lt by simp
      finally show ?thesis using lt by (simp add: dr split: option.splits)
    next
      case False
      then have "scan data cursor j = j"
        by (subst scan.simps) auto
      with False show ?thesis by (simp add: dr)
    qed
  qed
qed

lemma schedule_loop_ticks:
  "iStart \<le> length data \<Longrightarrow>
   schedule_loop data iStart endDate f cursor
   = List.map_filter (firstOnOrAfter data iStart endDate) (ticks cursor endDate (stepDays f * msPerDay))"
proof (induction data iStart endDate f cursor rule: schedule_loop.induct)
  case (1 data iStart endDate frequency cursor)
  have pos: "0 < stepDays frequency * msPerDay"
    by (simp add: stepDays_def msPerDay_def)
  show ?case
  proof (cases "cursor \<le> endDate")
    case False
    then have "ticks cursor endDate (stepDays frequency * msPerDay) = []"
      using pos by (simp add: ticks_Nil)
    with False show ?thesis
      by (subst schedule_loop.simps) (simp add: List.map_filter_simps)
  next
    case True
    have t: "ticks cursor endDate (stepDays frequency * msPerDay)
             = cursor # ticks (cursor + stepDays frequency * msPerDay) endDate (stepDays frequency * msPerDay)"
      using True pos by (rule ticks_Cons)
    have rest: "schedule_loop data iStart endDate frequency (cursor + stepDays frequency * msPerDay)
       = List.map_filter (firstOnOrAfter data iStart endDate)
           (ticks (cursor + stepDays frequency * msPerDay) endDate (stepDays frequency * msPerDay))"
      using "1.IH" [OF True refl "1.prems"] .
    have pick: "firstOnOrAfter data iStart endDate cursor
       = (if scan data cursor iStart < length data \<and> pt_t (data ! scan data cursor iStart) \<le> endDate
          then Some (scan data cursor iStart) else None)"
    proof (cases "findIndex (\<lambda>d. cursor \<le> pt_t d) (drop iStart data)")
      case None
      then show ?thesis
        using scan_findIndex [OF "1.prems", of cursor] by (simp add: firstOnOrAfter_def)
    next
      case (Some k)
      from findIndex_Some [OF Some] have "k < length data - iStart" by simp
      then have "iStart + k < length data" by linarith
      with Some show ?thesis
        using scan_findIndex [OF "1.prems", of cursor] by (simp add: firstOnOrAfter_def)
    qed
    show ?thesis
      using True by (subst schedule_loop.simps) (simp add: t rest pick Let_def List.map_filter_simps)
  qed
qed

lemma buildScheduleIdx_scheduleEvery:
  "buildScheduleIdx data start end f = scheduleEvery (stepDays f) data start end"
proof (cases "findIndex (\<lambda>d. start \<le> pt_t d) data")
  case None
  then show ?thesis by (simp add: buildScheduleIdx_def scheduleEvery_def)
next
  case (Some iStart)
  from findIndex_Some [OF Some] have i: "iStart < length data" by simp
  then have ne: "data \<noteq> []" by auto
  have l: "data ! (length data - Suc 0) = last data"
    using ne by (simp add: last_conv_nth)
  from i have "iStart \<le> length data" by simp
  from schedule_loop_ticks [OF this] Some show ?thesis
    by (simp add: buildScheduleIdx_def scheduleEvery_def Let_def l min_def)
qed

section \<open>The claims\<close>

text \<open>
  Claim C1 (capital parity of \<open>simulateLumpSum\<close> and \<open>simulateDCA\<close>), evaluated on
  \<open>gapSeries\<close> with a daily contribution of 100: the schedule is \<open>[0, 1, 1, 1]\<close>, the
  lump sum invests four contributions and the sequential pointer of \<open>simulateDCA\<close> pays
  only two. The two totals agree whenever the schedule repeats no position
  (\<open>capital_parity_without_repeats\<close>).
\<close>

theorem capital_parity_fails_on_gap:
  "r_cashIn (result (simulateLumpSum gapSeries 0 (3 * 86400000) 100 ''daily'')) = 400
   \<and> r_cashIn (result (simulateDCA gapSeries 0 (3 * 86400000) 100 ''daily'')) = 200"
  by code_simp

text \<open>
  Claim C2 (the schedule is strictly increasing), evaluated on \<open>gapSeries\<close> with a daily
  step: the cursor ticks of days 1, 2 and 3 all resolve to position 1, which is pushed
  three times.
\<close>

theorem schedule_repeats_position_on_gap:
  "buildScheduleIdx gapSeries 0 (3 * 86400000) ''daily'' = [0, 1, 1, 1]
   \<and> \<not> sorted_wrt (<) (buildScheduleIdx gapSeries 0 (3 * 86400000) ''daily'')"
  by code_simp

text \<open>
  Claim C3, as amended. For a contribution \<open>amount\<close> that is not negative and a series of
  positive prices, in the timeline of each of the four simulators the cumulative cash column
  and the units column never decrease from one entry to the next.
\<close>

theorem columns_non_decreasing:
  assumes "0 \<le> amount" and "positivePrices data"
  shows "nonDecreasing (map e_cashIn (timeline (simulateDCA data start end amount frequency)))
       \<and> nonDecreasing (map e_units (timeline (simulateDCA data start end amount frequency)))
       \<and> nonDecreasing (map e_cashIn (timeline (simulateLumpSum data start end amount frequency)))
       \<and> nonDecreasing (map e_units (timeline (simulateLumpSum data start end amount frequency)))
       \<and> nonDecreasing (map e_cashIn (timeline (simulateDipBuy data start end amount frequency dipPct)))
       \<and> nonDecreasing (map e_units (timeline (simulateDipBuy data start end amount frequency dipPct)))
       \<and> nonDecreasing (map e_cashIn (timeline (simulateTrendDCA data start end amount frequency maN)))
       \<and> nonDecreasing (map e_units (timeline (simulateTrendDCA data start end amount frequency maN)))"
proof -
  have pos: "\<forall>d\<in>set data. 0 < pt_p d"
    using assms(2) by (simp add: positivePrices_def list_all_iff)
  have dca: "nonDecreasing (map e_cashIn (timeline (simulateDCA data start end amount frequency)))"
    "nonDecreasing (map e_units (timeline (simulateDCA data start end amount frequency)))"
    using dca_loop_cashIn_mono [OF assms(1)] dca_loop_units_mono [OF assms(1) pos]
    by (simp_all add: simulateDCA_def Let_def nonDecreasing_sorted)
  have ls: "nonDecreasing (map e_cashIn (timeline (simulateLumpSum data start end amount frequency)))"
    "nonDecreasing (map e_units (timeline (simulateLumpSum data start end amount frequency)))"
    using ls_loop_mono
    by (simp_all add: simulateLumpSum_def Let_def nonDecreasing_sorted split: option.splits)
  have dip: "nonDecreasing (map e_cashIn (timeline (simulateDipBuy data start end amount frequency dipPct)))"
    "nonDecreasing (map e_units (timeline (simulateDipBuy data start end amount frequency dipPct)))"
    using dip_loop_mono [OF assms(1) pos]
    by (simp_all add: simulateDipBuy_def Let_def nonDecreasing_sorted)
  have trend: "nonDecreasing (map e_cashIn (timeline (simulateTrendDCA data start end amount frequency maN)))"
    "nonDecreasing (map e_units (timeline (simulateTrendDCA data start end amount frequency maN)))"
    using trend_loop_mono [OF assms(1) pos]
    by (simp_all add: simulateTrendDCA_def Let_def nonDecreasing_sorted)
  from dca ls dip trend show ?thesis by simp
qed

theorem columns_non_decreasing_witness:
  "(0::real) \<le> 100 \<and> positivePrices gapSeries
   \<and> map e_cashIn (timeline (simulateDCA gapSeries 0 (3 * 86400000) 100 ''daily'')) = [100, 200]
   \<and> nonDecreasing (map e_cashIn (timeline (simulateDCA gapSeries 0 (3 * 86400000) 100 ''daily'')))
   \<and> nonDecreasing (map e_units (timeline (simulateDCA gapSeries 0 (3 * 86400000) 100 ''daily'')))
   \<and> nonDecreasing (map e_units (timeline (simulateDipBuy gapSeries 0 (3 * 86400000) 100 ''daily'' (1 / 5))))
   \<and> nonDecreasing (map e_units (timeline (simulateTrendDCA gapSeries 0 (3 * 86400000) 100 ''daily'' 1)))"
proof -
  have a: "(0::real) \<le> 100" by simp
  have p: "positivePrices gapSeries" by code_simp
  have c: "map e_cashIn (timeline (simulateDCA gapSeries 0 (3 * 86400000) 100 ''daily'')) = [100, 200]"
    by code_simp
  from columns_non_decreasing [OF a p, of 0 "3 * 86400000" "''daily''" "1 / 5" 1] a p c
  show ?thesis by simp
qed

text \<open>
  Claim C3 as stated includes negative amounts. There \<open>simulateDCA\<close> adds the negative
  amount to \<open>cashIn\<close> and the negative quotient \<open>amount / p\<close> to \<open>units\<close> on every
  scheduled day, so both columns decrease.
\<close>

theorem negative_amount_columns_decrease:
  "map e_cashIn (timeline (simulateDCA flatSeries 0 86400000 (- 100) ''daily'')) = [- 100, - 200]
   \<and> map e_units (timeline (simulateDCA flatSeries 0 86400000 (- 100) ''daily'')) = [- 1, - 2]
   \<and> \<not> nonDecreasing (map e_cashIn (timeline (simulateDCA flatSeries 0 86400000 (- 100) ''daily'')))
   \<and> \<not> nonDecreasing (map e_units (timeline (simulateDCA flatSeries 0 86400000 (- 100) ''daily'')))"
  by code_simp

text \<open>
  Claim C4, as amended. Over a series of positive prices, on every in-window day of
  \<open>simulateDipBuy\<close> where the drawdown \<open>(peak - price) / peak\<close> from the running peak is
  at least \<open>dipPct\<close> and the accumulated cash pile is positive, the whole pile is converted
  into units at that day's price and the pile is reset to zero; every timeline entry has
  value \<open>units * price + cashPile\<close>. On the two-point series with prices 100 and 50,
  \<open>dipPct = 0.2\<close> and one contribution of 100 scheduled at the first point, the pile of 100
  is deployed on the second day at price 50: two units, end value 100.
\<close>

theorem dip_deploys_whole_pile:
  assumes "positivePrices data"
  shows "deploysOnDip (\<lambda>pile. 0 < pile) dipPct None 0 0 0
           (timeline (simulateDipBuy data start end amount frequency dipPct))
       \<and> timeline (simulateDipBuy crashSeries 0 86400000 100 ''weekly'' (1 / 5))
           = [\<lparr>e_t = 0, e_p = 100, e_cashIn = 100, e_units = 0, e_value = 100,
                e_cashPile = Some 100, e_ma = None\<rparr>,
              \<lparr>e_t = 86400000, e_p = 50, e_cashIn = 100, e_units = 2, e_value = 100,
                e_cashPile = Some 0, e_ma = None\<rparr>]
       \<and> result (simulateDipBuy crashSeries 0 86400000 100 ''weekly'' (1 / 5))
           = \<lparr>r_cashIn = 100, r_units = 2, r_endValue = 100\<rparr>"
proof -
  have pos: "\<forall>d\<in>set data. 0 < pt_p d"
    using assms by (simp add: positivePrices_def list_all_iff)
  have general: "deploysOnDip (\<lambda>pile. 0 < pile) dipPct None 0 0 0
      (timeline (simulateDipBuy data start end amount frequency dipPct))"
    using dip_loop_deploys [OF pos] by (simp add: simulateDipBuy_def Let_def)
  have tl: "timeline (simulateDipBuy crashSeries 0 86400000 100 ''weekly'' (1 / 5))
           = [\<lparr>e_t = 0, e_p = 100, e_cashIn = 100, e_units = 0, e_value = 100,
                e_cashPile = Some 100, e_ma = None\<rparr>,
              \<lparr>e_t = 86400000, e_p = 50, e_cashIn = 100, e_units = 2, e_value = 100,
                e_cashPile = Some 0, e_ma = None\<rparr>]"
    by code_simp
  have res: "result (simulateDipBuy crashSeries 0 86400000 100 ''weekly'' (1 / 5))
           = \<lparr>r_cashIn = 100, r_units = 2, r_endValue = 100\<rparr>"
    by code_simp
  from general tl res show ?thesis by simp
qed

theorem dip_deploys_whole_pile_witness:
  "positivePrices crashSeries
   \<and> deploysOnDip (\<lambda>pile. 0 < pile) (1 / 5) None 0 0 0
        (timeline (simulateDipBuy crashSeries 0 86400000 100 ''weekly'' (1 / 5)))
   \<and> map e_units (timeline (simulateDipBuy crashSeries 0 86400000 100 ''weekly'' (1 / 5))) = [0, 2]"
proof -
  have p: "positivePrices crashSeries" by code_simp
  have u: "map e_units (timeline (simulateDipBuy crashSeries 0 86400000 100 ''weekly'' (1 / 5))) = [0, 2]"
    by code_simp
  from dip_deploys_whole_pile [OF p, of "1 / 5" 0 86400000 100 "''weekly''"]
  have d: "deploysOnDip (\<lambda>pile. 0 < pile) (1 / 5) None 0 0 0
        (timeline (simulateDipBuy crashSeries 0 86400000 100 ''weekly'' (1 / 5)))"
    by (rule conjunct1)
  from p d u show ?thesis by blast
qed

text \<open>
  Claim C4 as stated asks for a pile that is not zero. The source tests \<open>cashPile > 0\<close>: a
  negative pile, which a negative amount produces, is not zero and is never deployed. With
  an amount of -100 the second day has a drawdown of one half and a pile of -100, and the
  entry keeps zero units and the pile of -100.
\<close>

theorem negative_pile_not_deployed:
  "\<not> deploysOnDip (\<lambda>pile. pile \<noteq> 0) (1 / 5) None 0 0 0
        (timeline (simulateDipBuy crashSeries 0 86400000 (- 100) ''weekly'' (1 / 5)))
   \<and> timeline (simulateDipBuy crashSeries 0 86400000 (- 100) ''weekly'' (1 / 5))
       = [\<lparr>e_t = 0, e_p = 100, e_cashIn = - 100, e_units = 0, e_value = - 100,
            e_cashPile = Some (- 100), e_ma = None\<rparr>,
          \<lparr>e_t = 86400000, e_p = 50, e_cashIn = - 100, e_units = 0, e_value = - 100,
            e_cashPile = Some (- 100), e_ma = None\<rparr>]"
  by code_simp

text \<open>
  Claim C5, as amended. The collection of daily returns that \<open>metricsFromTimeline\<close> uses
  for the volatility holds one return for every adjacent pair of timeline entries, in
  order: \<open>value_i / value_{i-1} - 1\<close> when the previous value is positive, and the return
  zero when it is not. The annualised volatility is the sample standard deviation of that
  collection with Bessel's correction times the square root of 365 when the collection has
  at least two returns, and zero when it has fewer (the divisor is \<open>max(1, n - 1)\<close>).
\<close>

theorem volatility_of_pair_returns:
  assumes "metricsFromTimeline tline = Some m"
  shows "rets_loop tline = pairReturns (map e_value tline)
       \<and> (2 \<le> length (pairReturns (map e_value tline)) \<longrightarrow>
            m_volAnn m = sampleStdDev (pairReturns (map e_value tline)) * sqrt 365)
       \<and> (length (pairReturns (map e_value tline)) < 2 \<longrightarrow> m_volAnn m = 0)"
proof -
  let ?rets = "rets_loop tline"
  have eq: "?rets = pairReturns (map e_value tline)"
    by (rule rets_loop_pairReturns)
  have two: "m_volAnn m = sampleStdDev ?rets * sqrt 365" if "2 \<le> length ?rets"
  proof -
    from that have "real_of_int (max 1 (int (length ?rets) - 1)) = real (length ?rets) - 1"
      by (simp add: max_def)
    moreover from that have "(if length ?rets = 0 then 1 else length ?rets) = length ?rets"
      by auto
    ultimately show ?thesis
      using volAnn_general [OF assms] by (simp add: sampleStdDev_def)
  qed
  have few: "m_volAnn m = 0" if "length ?rets < 2"
  proof (cases ?rets)
    case Nil
    then show ?thesis using volAnn_general [OF assms] by simp
  next
    case (Cons x xs)
    with that have "xs = []" by simp
    with Cons show ?thesis using volAnn_general [OF assms] by simp
  qed
  from eq two few show ?thesis by metis
qed

theorem volatility_of_pair_returns_witness:
  "metricsFromTimeline (timeline (simulateDCA risingSeries 0 (2 * 86400000) 100 ''weekly'')) \<noteq> None
   \<and> pairReturns (map e_value (timeline (simulateDCA risingSeries 0 (2 * 86400000) 100 ''weekly'')))
       = [1 / 10, 1 / 5]
   \<and> m_volAnn (the (metricsFromTimeline
         (timeline (simulateDCA risingSeries 0 (2 * 86400000) 100 ''weekly''))))
       = sampleStdDev [1 / 10, 1 / 5] * sqrt 365"
proof -
  let ?tl = "timeline (simulateDCA risingSeries 0 (2 * 86400000) 100 ''weekly'')"
  have vals: "map e_value ?tl = [100, 110, 132]"
    by code_simp
  then have ne: "?tl \<noteq> []" by auto
  then have some: "metricsFromTimeline ?tl = Some (the (metricsFromTimeline ?tl))"
    by (simp add: metricsFromTimeline_def Let_def)
  have pr: "pairReturns (map e_value ?tl) = [1 / 10, 1 / 5]"
    unfolding vals by code_simp
  from ne have nn: "metricsFromTimeline ?tl \<noteq> None"
    by (simp add: metricsFromTimeline_def Let_def)
  from volatility_of_pair_returns [OF some] pr
  have vol: "m_volAnn (the (metricsFromTimeline ?tl)) = sampleStdDev [1 / 10, 1 / 5] * sqrt 365"
    by simp
  from nn pr vol show ?thesis by blast
qed

text \<open>
  Claim C5 as stated has no return for a pair whose previous value is not positive. The
  source pushes the return zero for such a pair: with an amount of zero every portfolio
  value is zero, and the collection of the two-day timeline is \<open>[0]\<close>, not empty.
\<close>

theorem zero_return_is_collected:
  "map e_value (timeline (simulateDCA flatSeries 0 86400000 0 ''daily'')) = [0, 0]
   \<and> rets_loop (timeline (simulateDCA flatSeries 0 86400000 0 ''daily'')) = [0]
   \<and> positivePairReturns (map e_value (timeline (simulateDCA flatSeries 0 86400000 0 ''daily''))) = []"
  by code_simp

text \<open>
  Claim C6. When the series is empty or none of its days lies inside \<open>[start, end]\<close>,
  each of the four simulators returns the empty timeline with the zeroed summary, and
  \<open>metricsFromTimeline\<close> of that timeline is the empty record. The model is total, so
  nothing is raised. Prices are positive, as in the data model: the lump sum divides by the
  price of the first day on or after \<open>start\<close>.
\<close>

theorem empty_window_gives_empty_results:
  assumes "positivePrices data" and "noDayInWindow data start end"
  shows "simulateDCA data start end amount frequency = emptySim
       \<and> simulateLumpSum data start end amount frequency = emptySim
       \<and> simulateDipBuy data start end amount frequency dipPct = emptySim
       \<and> simulateTrendDCA data start end amount frequency maN = emptySim
       \<and> metricsFromTimeline (timeline (simulateDCA data start end amount frequency)) = None
       \<and> metricsFromTimeline (timeline (simulateLumpSum data start end amount frequency)) = None
       \<and> metricsFromTimeline (timeline (simulateDipBuy data start end amount frequency dipPct)) = None
       \<and> metricsFromTimeline (timeline (simulateTrendDCA data start end amount frequency maN)) = None"
proof -
  have out: "\<forall>d\<in>set data. pt_t d < start \<or> end < pt_t d"
    using assms(2) by (simp add: noDayInWindow_def list_all_iff)
  have "simulateDCA data start end amount frequency = emptySim"
    by (simp add: simulateDCA_def Let_def dca_loop_empty [OF out] emptySim_def lastValue_def)
  moreover have "simulateLumpSum data start end amount frequency = emptySim"
    by (rule simulateLumpSum_empty [OF out])
  moreover have "simulateDipBuy data start end amount frequency dipPct = emptySim"
    by (simp add: simulateDipBuy_def Let_def dip_loop_empty [OF out] emptySim_def lastValue_def)
  moreover have "simulateTrendDCA data start end amount frequency maN = emptySim"
    by (simp add: simulateTrendDCA_def Let_def trend_loop_empty [OF out] emptySim_def lastValue_def)
  moreover have "metricsFromTimeline (timeline emptySim) = None"
    by (simp add: metricsFromTimeline_def emptySim_def)
  ultimately show ?thesis by simp
qed

theorem empty_window_gives_empty_results_witness:
  "positivePrices gapSeries \<and> noDayInWindow gapSeries (10 * 86400000) (20 * 86400000)
   \<and> simulateDCA gapSeries (10 * 86400000) (20 * 86400000) 100 ''daily'' = emptySim
   \<and> simulateLumpSum gapSeries (10 * 86400000) (20 * 86400000) 100 ''daily'' = emptySim
   \<and> simulateDipBuy gapSeries (10 * 86400000) (20 * 86400000) 100 ''daily'' (1 / 5) = emptySim
   \<and> simulateTrendDCA gapSeries (10 * 86400000) (20 * 86400000) 100 ''daily'' 200 = emptySim
   \<and> metricsFromTimeline
        (timeline (simulateLumpSum gapSeries (10 * 86400000) (20 * 86400000) 100 ''daily'')) = None"
proof -
  have p: "positivePrices gapSeries" by code_simp
  have n: "noDayInWindow gapSeries (10 * 86400000) (20 * 86400000)" by code_simp
  from empty_window_gives_empty_results [OF p n, of 100 "''daily''" "1 / 5" 200] p n
  show ?thesis by blast
qed

text \<open>
  Claim C7 (the stages tile \<open>[start, end]\<close> exactly), evaluated at the dates the program
  passes: \<open>start\<close> and \<open>end\<close> are the UTC midnights of 1 January and 31 March 2017, as
  date-only strings parse, while \<open>buildStages\<close> builds its boundaries in local time. On a
  host eight hours ahead of UTC the monthly stages end at 16:00 UTC of 30 January,
  27 February and 30 March: the last stage does not end at \<open>end\<close>, and the sample of
  31 January, 00:00 UTC, lies in no stage. On a host five hours behind UTC the first
  quarterly stage is labelled \<open>2016-Q4\<close> and ends before it starts.
\<close>

theorem stages_miss_days_off_utc:
  "map (\<lambda>s. (st_start s, st_end s, st_label s))
      (buildStages utcPlus8 1483228800000 1490918400000 ''month'')
     = [(1483228800000, 1485792000000, ''2017-01''),
        (1485878400000, 1488211200000, ''2017-02''),
        (1488297600000, 1490889600000, ''2017-03'')]
   \<and> st_end (last (buildStages utcPlus8 1483228800000 1490918400000 ''month'')) \<noteq> 1490918400000
   \<and> filter (\<lambda>s. st_start s \<le> 1485820800000 \<and> 1485820800000 \<le> st_end s)
        (buildStages utcPlus8 1483228800000 1490918400000 ''month'') = []
   \<and> \<not> tiles 1483228800000 1490918400000
          (buildStages utcPlus8 1483228800000 1490918400000 ''month'')
   \<and> map (\<lambda>s. (st_start s, st_end s, st_label s))
        (buildStages utcMinus5 1483228800000 1490918400000 ''quarter'')
       = [(1483228800000, 1483160400000, ''2016-Q4''),
          (1483246800000, 1490918400000, ''2017-Q1'')]
   \<and> \<not> tiles 1483228800000 1490918400000
          (buildStages utcMinus5 1483228800000 1490918400000 ''quarter'')"
proof -
  have m: "buildStages utcPlus8 1483228800000 1490918400000 ''month''
     = [\<lparr>st_start = 1483228800000, st_end = 1485792000000, st_label = ''2017-01''\<rparr>,
        \<lparr>st_start = 1485878400000, st_end = 1488211200000, st_label = ''2017-02''\<rparr>,
        \<lparr>st_start = 1488297600000, st_end = 1490889600000, st_label = ''2017-03''\<rparr>]"
    by code_simp
  have q: "buildStages utcMinus5 1483228800000 1490918400000 ''quarter''
     = [\<lparr>st_start = 1483228800000, st_end = 1483160400000, st_label = ''2016-Q4''\<rparr>,
        \<lparr>st_start = 1483246800000, st_end = 1490918400000, st_label = ''2017-Q1''\<rparr>]"
    by code_simp
  show ?thesis unfolding m q by (simp add: tiles_def)
qed

text \<open>
  Claim C8. The sequential pointer of \<open>simulateDCA\<close> pays one contribution for each
  position of the longest strictly increasing prefix of the schedule and none afterwards:
  for every input the final cumulative cash, in the summary and in the last timeline entry,
  is \<open>amount\<close> times the length of that prefix. On a series with a gap the schedule
  repeats a position, and the total is then not \<open>amount\<close> times the schedule length:
  the daily schedule over \<open>gapSeries\<close> has four entries and the simulator pays in twice.
\<close>

theorem dca_pays_increasing_prefix:
  "r_cashIn (result (simulateDCA data start end amount frequency))
     = amount * real (length (inc_prefix (buildScheduleIdx data start end frequency)))
   \<and> finalCashIn (timeline (simulateDCA data start end amount frequency))
     = amount * real (length (inc_prefix (buildScheduleIdx data start end frequency)))
   \<and> buildScheduleIdx gapSeries 0 (3 * 86400000) ''daily'' = [0, 1, 1, 1]
   \<and> inc_prefix [0, 1, 1, 1] = [0, 1]
   \<and> r_cashIn (result (simulateDCA gapSeries 0 (3 * 86400000) 100 ''daily'')) = 100 * 2"
proof -
  have "r_cashIn (result (simulateDCA gapSeries 0 (3 * 86400000) 100 ''daily'')) = 100 * 2"
    by code_simp
  moreover have "inc_prefix [0, 1, 1, 1] = [0, 1]"
    by simp
  ultimately show ?thesis
    using simulateDCA_cashIn simulateDCA_final gap_schedule by simp
qed

text \<open>
  Claim C9. \<open>simulateDipBuy\<close> and \<open>simulateTrendDCA\<close> test membership in the set of
  scheduled positions, so for every input their final cumulative cash is \<open>amount\<close> times
  the number of distinct scheduled positions inside the window. This can be strictly less
  than the total of \<open>simulateLumpSum\<close>, which is \<open>amount\<close> times the full schedule
  length: over \<open>gapSeries\<close> they pay in 200 and the lump sum is 400.
\<close>

theorem dip_trend_pay_distinct_positions:
  "r_cashIn (result (simulateDipBuy data start end amount frequency dipPct))
     = amount * real (card {x \<in> set (buildScheduleIdx data start end frequency).
                              x < length data \<and> start \<le> pt_t (data ! x) \<and> pt_t (data ! x) \<le> end})
   \<and> r_cashIn (result (simulateTrendDCA data start end amount frequency maN))
     = amount * real (card {x \<in> set (buildScheduleIdx data start end frequency).
                              x < length data \<and> start \<le> pt_t (data ! x) \<and> pt_t (data ! x) \<le> end})
   \<and> finalCashIn (timeline (simulateDipBuy data start end amount frequency dipPct))
     = r_cashIn (result (simulateDipBuy data start end amount frequency dipPct))
   \<and> finalCashIn (timeline (simulateTrendDCA data start end amount frequency maN))
     = r_cashIn (result (simulateTrendDCA data start end amount frequency maN))
   \<and> r_cashIn (result (simulateDipBuy gapSeries 0 (3 * 86400000) 100 ''daily'' (1 / 5))) = 200
   \<and> r_cashIn (result (simulateTrendDCA gapSeries 0 (3 * 86400000) 100 ''daily'' 200)) = 200
   \<and> r_cashIn (result (simulateLumpSum gapSeries 0 (3 * 86400000) 100 ''daily'')) = 400"
proof -
  have "r_cashIn (result (simulateDipBuy gapSeries 0 (3 * 86400000) 100 ''daily'' (1 / 5))) = 200"
    by code_simp
  moreover have "r_cashIn (result (simulateTrendDCA gapSeries 0 (3 * 86400000) 100 ''daily'' 200)) = 200"
    by code_simp
  moreover have "r_cashIn (result (simulateLumpSum gapSeries 0 (3 * 86400000) 100 ''daily'')) = 400"
    by code_simp
  ultimately show ?thesis
    using simulateDipBuy_cashIn simulateTrendDCA_cashIn simulateDipBuy_final simulateTrendDCA_final
    by simp
qed

text \<open>
  Claim C10. \<open>buildScheduleIdx\<close> steps by one calendar day for \<open>'daily'\<close>, by seven days
  for \<open>'weekly'\<close> and by thirty days for every other frequency value, \<open>'monthly'\<close> and any
  unrecognised string alike: its result is the schedule that contributes every 1, 7 or 30
  days. An unrecognised frequency is therefore not an error; it yields exactly the schedule
  of \<open>'monthly'\<close>. On ten consecutive days the daily schedule is every position, the weekly
  one is positions 0 and 7 and the monthly one is position 0 alone; on the series with days
  0, 7, 30, 37 and 60 the monthly schedule is the positions of days 0, 30 and 60.
\<close>

theorem frequency_step_mapping:
  "buildScheduleIdx data start end ''daily'' = scheduleEvery 1 data start end
   \<and> buildScheduleIdx data start end ''weekly'' = scheduleEvery 7 data start end
   \<and> buildScheduleIdx data start end ''monthly'' = scheduleEvery 30 data start end
   \<and> (frequency \<noteq> ''daily'' \<and> frequency \<noteq> ''weekly'' \<longrightarrow>
        buildScheduleIdx data start end frequency = scheduleEvery 30 data start end
        \<and> buildScheduleIdx data start end frequency = buildScheduleIdx data start end ''monthly'')
   \<and> buildScheduleIdx tenDays 0 (9 * 86400000) ''daily'' = [0, 1, 2, 3, 4, 5, 6, 7, 8, 9]
   \<and> buildScheduleIdx tenDays 0 (9 * 86400000) ''weekly'' = [0, 7]
   \<and> buildScheduleIdx tenDays 0 (9 * 86400000) ''monthly'' = [0]
   \<and> buildScheduleIdx sparseSeries 0 (60 * 86400000) ''weekly'' = [0, 1, 2, 2, 2, 3, 4, 4, 4]
   \<and> buildScheduleIdx sparseSeries 0 (60 * 86400000) ''monthly'' = [0, 2, 4]"
proof -
  have daily: "buildScheduleIdx data start end ''daily'' = scheduleEvery 1 data start end"
    using buildScheduleIdx_scheduleEvery [of data start "end" "''daily''"]
    by (simp add: stepDays_def)
  have weekly: "buildScheduleIdx data start end ''weekly'' = scheduleEvery 7 data start end"
    using buildScheduleIdx_scheduleEvery [of data start "end" "''weekly''"]
    by (simp add: stepDays_def)
  have other: "buildScheduleIdx data start end f = scheduleEvery 30 data start end"
    if "f \<noteq> ''daily''" "f \<noteq> ''weekly''" for f
    using buildScheduleIdx_scheduleEvery [of data start "end" f] that
    by (simp add: stepDays_other)
  have monthly: "buildScheduleIdx data start end ''monthly'' = scheduleEvery 30 data start end"
    by (rule other) simp_all
  have e1: "buildScheduleIdx tenDays 0 (9 * 86400000) ''daily'' = [0, 1, 2, 3, 4, 5, 6, 7, 8, 9]"
    by code_simp
  have e2: "buildScheduleIdx tenDays 0 (9 * 86400000) ''weekly'' = [0, 7]"
    by code_simp
  have e3: "buildScheduleIdx tenDays 0 (9 * 86400000) ''monthly'' = [0]"
    by code_simp
  have e4: "buildScheduleIdx sparseSeries 0 (60 * 86400000) ''weekly'' = [0, 1, 2, 2, 2, 3, 4, 4, 4]"
    by code_simp
  have e5: "buildScheduleIdx sparseSeries 0 (60 * 86400000) ''monthly'' = [0, 2, 4]"
    by code_simp
  show ?thesis
    using daily weekly monthly other [of frequency] e1 e2 e3 e4 e5 by simp
qed

theorem frequency_step_mapping_witness:
  "''fortnightly'' \<noteq> ''daily'' \<and> ''fortnightly'' \<noteq> ''weekly''
   \<and> buildScheduleIdx sparseSeries 0 (60 * 86400000) ''fortnightly''
       = scheduleEvery 30 sparseSeries 0 (60 * 86400000)
   \<and> buildScheduleIdx sparseSeries 0 (60 * 86400000) ''fortnightly''
       = buildScheduleIdx sparseSeries 0 (60 * 86400000) ''monthly''
   \<and> scheduleEvery 30 sparseSeries 0 (60 * 86400000) = [0, 2, 4]
   \<and> scheduleEvery 7 sparseSeries 0 (60 * 86400000) = [0, 1, 2, 2, 2, 3, 4, 4, 4]"
proof -
  have n: "''fortnightly'' \<noteq> ''daily''" "''fortnightly'' \<noteq> ''weekly''"
    by simp_all
  have v: "scheduleEvery 30 sparseSeries 0 (60 * 86400000) = [0, 2, 4]"
    "scheduleEvery 7 sparseSeries 0 (60 * 86400000) = [0, 1, 2, 2, 2, 3, 4, 4, 4]"
    by code_simp+
  from frequency_step_mapping [of sparseSeries 0 "60 * 86400000" "''fortnightly''"] n
  have "buildScheduleIdx sparseSeries 0 (60 * 86400000) ''fortnightly''
          = scheduleEvery 30 sparseSeries 0 (60 * 86400000)"
    and "buildScheduleIdx sparseSeries 0 (60 * 86400000) ''fortnightly''
          = buildScheduleIdx sparseSeries 0 (60 * 86400000) ''monthly''"
    by blast+
  with n v show ?thesis by blast
qed

end
